theory Spec2Isabelle
  imports Complex_Main "HOL-Library.Multiset" "HOL-Library.Sublist" "HOL-Library.AList"
    "HOL-Library.Char_ord" "HOL-Library.List_Lexorder"
begin

section \<open>The merge planner (scripts/optimize.py)\<close>

text \<open>
  Amounts are Python floats in the source; they are modelled as exact real numbers, so
  rounding, infinities and NaN are outside the model. An input order is the dict the
  docstring of \<open>optimize\<close> describes: the keys \<open>orgId\<close>, \<open>orderId\<close>, \<open>ivcAmount\<close>
  (already converted by \<open>float\<close>) and \<open>canHk\<close>.
\<close>

record order =
  orgId :: int
  orderId :: string
  ivcAmount :: real
  canHk :: bool

record Invoice =
  org_id :: int
  org_name :: string
  order_ids :: "string list"
  amounts :: "real list"
  total :: real

definition count :: "Invoice \<Rightarrow> nat" where
  "count iv = length (order_ids iv)"

text \<open>\<open>leftover\<close> is a dict in the source; its insertion order is kept by an association list.\<close>

record Plan =
  invoices :: "Invoice list"
  leftover :: "(int \<times> order list) list"

subsection \<open>find\_best\_combo\<close>

text \<open>\<open>itertools.combinations(xs, r)\<close>: the r-element subsequences in lexicographic order of positions.\<close>

fun combinations :: "'a list \<Rightarrow> nat \<Rightarrow> 'a list list" where
  "combinations xs 0 = [[]]"
| "combinations [] (Suc r) = []"
| "combinations (x # xs) (Suc r) = map ((#) x) (combinations xs r) @ combinations xs (Suc r)"

text \<open>
  \<open>best_sum\<close> starts as \<open>float('inf')\<close>: it is a \<open>real option\<close> with \<open>None\<close> for infinity.
  \<open>lt_best s b\<close> is \<open>s < best_sum\<close> and \<open>best_lt b x\<close> is \<open>best_sum < x\<close>.
\<close>

definition lt_best :: "real \<Rightarrow> real option \<Rightarrow> bool" where
  "lt_best s b = (case b of None \<Rightarrow> True | Some v \<Rightarrow> s < v)"

definition best_lt :: "real option \<Rightarrow> real \<Rightarrow> bool" where
  "best_lt b x = (case b of None \<Rightarrow> False | Some v \<Rightarrow> v < x)"

type_synonym combo = "(nat \<times> real) list"

text \<open>The body of the inner loop over the combinations of one size; the state is
  \<open>(best, best_sum, found_at_this_size)\<close>.\<close>

definition try_combo ::
  "combo \<Rightarrow> real \<Rightarrow> nat list \<Rightarrow> combo option \<times> real option \<times> bool
     \<Rightarrow> combo option \<times> real option \<times> bool" where
  "try_combo amounts_with_idx target c st =
     (case st of (best, best_sum, found_at_this_size) \<Rightarrow>
        (let s = sum_list (map (\<lambda>j. map snd amounts_with_idx ! j) c)
         in if s \<ge> target \<and> lt_best s best_sum
            then (Some (map (\<lambda>j. amounts_with_idx ! j) c), Some s, True)
            else (best, best_sum, found_at_this_size)))"

text \<open>The loop over the sizes, with its two \<open>continue\<close> tests and its \<open>break\<close>.\<close>

fun size_loop ::
  "combo \<Rightarrow> real \<Rightarrow> nat list \<Rightarrow> combo option \<times> real option \<Rightarrow> combo option \<times> real option" where
  "size_loop amounts_with_idx target [] (best, best_sum) = (best, best_sum)"
| "size_loop amounts_with_idx target (sz # sizes) (best, best_sum) =
     (let n = length amounts_with_idx; amounts = map snd amounts_with_idx
      in if sum_list (take sz amounts) < target
         then size_loop amounts_with_idx target sizes (best, best_sum)
         else if \<not> lt_best (sum_list (drop (n - sz) amounts)) best_sum
         then size_loop amounts_with_idx target sizes (best, best_sum)
         else (case fold (try_combo amounts_with_idx target) (combinations [0..<n] sz)
                      (best, best_sum, False) of
                 (best', best_sum', found_at_this_size) \<Rightarrow>
                   if found_at_this_size \<and> best_lt best_sum' (target * 1.10)
                   then (best', best_sum')
                   else size_loop amounts_with_idx target sizes (best', best_sum')))"

definition find_best_combo :: "combo \<Rightarrow> real \<Rightarrow> int \<Rightarrow> combo option" where
  "find_best_combo amounts_with_idx target max_size =
     fst (size_loop amounts_with_idx target
            [2 ..< nat (min (max_size + 1) (int (length amounts_with_idx) + 1))]
            (None, None))"

text \<open>
  The three definitions above take the sums and the product \<open>target * 1.10\<close> as exact.
  In the source they are floating-point operations: \<open>sum\<close> rounds, and so does the
  product (\<open>100.0 * 1.10\<close> is \<open>110.00000000000001\<close>). The same three functions follow
  with the arithmetic as parameters: \<open>fsum\<close> is what \<open>sum\<close> gives for a list of amounts
  in the order of the list, \<open>tight\<close> is the value of \<open>target * 1.10\<close>. Comparisons are
  exact in both.
\<close>

definition try_combo_with ::
  "(real list \<Rightarrow> real) \<Rightarrow> combo \<Rightarrow> real \<Rightarrow> nat list \<Rightarrow> combo option \<times> real option \<times> bool
     \<Rightarrow> combo option \<times> real option \<times> bool" where
  "try_combo_with fsum amounts_with_idx target c st =
     (case st of (best, best_sum, found_at_this_size) \<Rightarrow>
        (let s = fsum (map (\<lambda>j. map snd amounts_with_idx ! j) c)
         in if s \<ge> target \<and> lt_best s best_sum
            then (Some (map (\<lambda>j. amounts_with_idx ! j) c), Some s, True)
            else (best, best_sum, found_at_this_size)))"

fun size_loop_with ::
  "(real list \<Rightarrow> real) \<Rightarrow> real \<Rightarrow> combo \<Rightarrow> real \<Rightarrow> nat list \<Rightarrow> combo option \<times> real option
     \<Rightarrow> combo option \<times> real option" where
  "size_loop_with fsum tight amounts_with_idx target [] (best, best_sum) = (best, best_sum)"
| "size_loop_with fsum tight amounts_with_idx target (sz # sizes) (best, best_sum) =
     (let n = length amounts_with_idx; amounts = map snd amounts_with_idx
      in if fsum (take sz amounts) < target
         then size_loop_with fsum tight amounts_with_idx target sizes (best, best_sum)
         else if \<not> lt_best (fsum (drop (n - sz) amounts)) best_sum
         then size_loop_with fsum tight amounts_with_idx target sizes (best, best_sum)
         else (case fold (try_combo_with fsum amounts_with_idx target) (combinations [0..<n] sz)
                      (best, best_sum, False) of
                 (best', best_sum', found_at_this_size) \<Rightarrow>
                   if found_at_this_size \<and> best_lt best_sum' tight
                   then (best', best_sum')
                   else size_loop_with fsum tight amounts_with_idx target sizes (best', best_sum')))"

definition find_best_combo_with ::
  "(real list \<Rightarrow> real) \<Rightarrow> real \<Rightarrow> combo \<Rightarrow> real \<Rightarrow> int \<Rightarrow> combo option" where
  "find_best_combo_with fsum tight amounts_with_idx target max_size =
     fst (size_loop_with fsum tight amounts_with_idx target
            [2 ..< nat (min (max_size + 1) (int (length amounts_with_idx) + 1))]
            (None, None))"

subsection \<open>optimize\<close>

text \<open>\<open>by_org\<close> is a \<open>defaultdict(list)\<close>: a missing key reads as the empty list, and
  appending to a new key adds it after the keys already there.\<close>

definition by_org_get :: "(int \<times> order list) list \<Rightarrow> int \<Rightarrow> order list" where
  "by_org_get d k = (case map_of d k of None \<Rightarrow> [] | Some v \<Rightarrow> v)"

fun by_org_append :: "(int \<times> order list) list \<Rightarrow> order \<Rightarrow> (int \<times> order list) list" where
  "by_org_append [] x = [(orgId x, [x])]"
| "by_org_append ((k, v) # d) x =
     (if k = orgId x then (k, v @ [x]) # d else (k, v) # by_org_append d x)"

definition group_by_org :: "order list \<Rightarrow> (int \<times> order list) list" where
  "group_by_org hk_orders = foldl by_org_append [] hk_orders"

text \<open>The \<open>while True\<close> loop of one owner. \<open>None\<close> is a loop that does not return.\<close>

partial_function (option) merge_loop ::
  "int \<Rightarrow> order list \<Rightarrow> real \<Rightarrow> int \<Rightarrow> nat set \<Rightarrow> Invoice list \<Rightarrow> (nat set \<times> Invoice list) option" where
  "merge_loop org pool target max_size used invs =
     (let available = map (\<lambda>i. (i, ivcAmount (pool ! i))) [0..<length pool];
          remaining = filter (\<lambda>(i, a). i \<notin> used) available;
          remaining_total = sum_list (map snd remaining)
      in if remaining_total < target then Some (used, invs)
         else (case find_best_combo (sort_key (\<lambda>x. - snd x) remaining) target max_size of
                 None \<Rightarrow> Some (used, invs)
               | Some cmb \<Rightarrow>
                   (let indices = map fst cmb;
                        iv = \<lparr>org_id = org, org_name = [],
                               order_ids = map (\<lambda>idx. orderId (pool ! idx)) indices,
                               amounts = map (\<lambda>idx. ivcAmount (pool ! idx)) indices,
                               total = sum_list (map snd cmb)\<rparr>
                    in merge_loop org pool target max_size (used \<union> set indices) (invs @ [iv]))))"

text \<open>The body of the loop over the owners.\<close>

definition process_org ::
  "(int \<times> order list) list \<Rightarrow> real \<Rightarrow> int \<Rightarrow> Plan \<Rightarrow> int \<Rightarrow> Plan option" where
  "process_org by_org target max_size plan org =
     (let pool = by_org_get by_org org;
          org_total = sum_list (map ivcAmount pool)
      in if org_total < target
         then Some (plan\<lparr>leftover := AList.update org pool (leftover plan)\<rparr>)
         else (case merge_loop org pool target max_size {} (invoices plan) of
                 None \<Rightarrow> None
               | Some (used, invs) \<Rightarrow>
                   (let leftover_orders = map (\<lambda>i. pool ! i) (filter (\<lambda>i. i \<notin> used) [0..<length pool])
                    in Some \<lparr>invoices = invs,
                             leftover = (if leftover_orders \<noteq> []
                                         then AList.update org leftover_orders (leftover plan)
                                         else leftover plan)\<rparr>)))"

fun process_orgs ::
  "(int \<times> order list) list \<Rightarrow> real \<Rightarrow> int \<Rightarrow> int list \<Rightarrow> Plan \<Rightarrow> Plan option" where
  "process_orgs by_org target max_size [] plan = Some plan"
| "process_orgs by_org target max_size (org # orgs) plan =
     (case process_org by_org target max_size plan org of
        None \<Rightarrow> None
      | Some plan' \<Rightarrow> process_orgs by_org target max_size orgs plan')"

text \<open>\<open>sorted(by_org.keys(), key=...)\<close>: Python's sort is stable, as \<open>sort_key\<close> is.
  \<open>optimize\<close> takes \<open>target\<close> and \<open>max_size\<close> as given (the lookup of their defaults in
  the configuration is left out). It checks neither of them and has no \<open>raise\<close>: its result
  is the plan, whenever the loops end.\<close>

definition org_order :: "(int \<times> order list) list \<Rightarrow> int list" where
  "org_order by_org =
     sort_key (\<lambda>k. - sum_list (map ivcAmount (by_org_get by_org k))) (map fst by_org)"

definition optimize :: "order list \<Rightarrow> real \<Rightarrow> int \<Rightarrow> Plan option" where
  "optimize orders target max_size =
     (let hk_orders = filter canHk orders;
          by_org = group_by_org hk_orders
      in process_orgs by_org target max_size (org_order by_org) \<lparr>invoices = [], leftover = []\<rparr>)"

subsection \<open>Notions used to state the planner's properties\<close>

text \<open>What the search keeps: nothing yet, or a combination with its sum.\<close>

definition kept_ok :: "combo \<Rightarrow> real \<Rightarrow> nat \<Rightarrow> combo option \<times> real option \<Rightarrow> bool" where
  "kept_ok awi target bound st =
     (case st of
        (None, bs) \<Rightarrow> bs = None
      | (Some c, bs) \<Rightarrow> bs = Some (sum_list (map snd c)) \<and> subseq c awi \<and>
           2 \<le> length c \<and> length c \<le> bound \<and> target \<le> sum_list (map snd c))"

definition invoice_ok :: "order list \<Rightarrow> int \<Rightarrow> real \<Rightarrow> int \<Rightarrow> Invoice \<Rightarrow> nat list \<Rightarrow> bool" where
  "invoice_ok pool org target max_size iv idxs \<longleftrightarrow>
     distinct idxs \<and> set idxs \<subseteq> {0..<length pool} \<and> 2 \<le> length idxs \<and>
     int (length idxs) \<le> max_size \<and> org_id iv = org \<and> org_name iv = [] \<and>
     order_ids iv = map (\<lambda>i. orderId (pool ! i)) idxs \<and>
     amounts iv = map (\<lambda>i. ivcAmount (pool ! i)) idxs \<and>
     total iv = sum_list (amounts iv) \<and> target \<le> total iv"

definition record_key :: "order \<Rightarrow> string \<times> real" where
  "record_key x = (orderId x, ivcAmount x)"

definition invoice_entries :: "Invoice \<Rightarrow> (string \<times> real) list" where
  "invoice_entries iv = zip (order_ids iv) (amounts iv)"

definition invoiced :: "Plan \<Rightarrow> int \<Rightarrow> (string \<times> real) list" where
  "invoiced plan k = concat (map invoice_entries (filter (\<lambda>iv. org_id iv = k) (invoices plan)))"

definition leftover_of :: "Plan \<Rightarrow> int \<Rightarrow> order list" where
  "leftover_of plan k = concat (map snd (filter (\<lambda>e. fst e = k) (leftover plan)))"

definition eligible :: "order list \<Rightarrow> int \<Rightarrow> order list" where
  "eligible orders k = filter (\<lambda>x. canHk x \<and> orgId x = k) orders"

text \<open>The order in which \<open>optimize\<close> takes the owners, the total of the eligible amounts of
  an owner, and the elements of a list in the order of their first occurrence.\<close>

definition processing_order :: "order list \<Rightarrow> int list" where
  "processing_order orders = org_order (group_by_org (filter canHk orders))"

definition group_total :: "order list \<Rightarrow> int \<Rightarrow> real" where
  "group_total orders k = sum_list (map ivcAmount (eligible orders k))"

fun first_seen :: "'a list \<Rightarrow> 'a list" where
  "first_seen [] = []"
| "first_seen (x # xs) = x # filter (\<lambda>y. y \<noteq> x) (first_seen xs)"

subsection \<open>The combination search as the specification words it\<close>

text \<open>
  The second definition of the search, written from the specification and not from the
  code: the \<open>k\<close> largest and the \<open>k\<close> smallest amounts of the pool (both largest first, as
  the sorted pool has them), the \<open>k\<close>-combinations of the pool that reach the target, the
  one of smallest total among some combinations (the first of them in the order of
  enumeration when several have this total), and the walk over the sizes that carries the
  best combination found so far. Sums and the bound \<open>tight\<close> are the parameters of the
  section before.
\<close>

definition combo_total :: "(real list \<Rightarrow> real) \<Rightarrow> combo \<Rightarrow> real" where
  "combo_total fsum c = fsum (map snd c)"

definition k_largest :: "nat \<Rightarrow> real list \<Rightarrow> real list" where
  "k_largest k xs = take k (rev (sort xs))"

definition k_smallest :: "nat \<Rightarrow> real list \<Rightarrow> real list" where
  "k_smallest k xs = drop (length xs - k) (rev (sort xs))"

definition reaching :: "(real list \<Rightarrow> real) \<Rightarrow> combo \<Rightarrow> real \<Rightarrow> nat \<Rightarrow> combo list" where
  "reaching fsum pool target k =
     filter (\<lambda>c. target \<le> combo_total fsum c) (combinations pool k)"

definition first_smallest :: "(real list \<Rightarrow> real) \<Rightarrow> combo list \<Rightarrow> combo" where
  "first_smallest fsum cs =
     hd (filter (\<lambda>c. combo_total fsum c = Min (set (map (combo_total fsum) cs))) cs)"

fun spec_sizes ::
  "(real list \<Rightarrow> real) \<Rightarrow> real \<Rightarrow> combo \<Rightarrow> real \<Rightarrow> nat list \<Rightarrow> combo option \<Rightarrow> combo option" where
  "spec_sizes fsum tight pool target [] best = best"
| "spec_sizes fsum tight pool target (k # ks) best =
     (if fsum (k_largest k (map snd pool)) < target
      then spec_sizes fsum tight pool target ks best
      else if (case best of None \<Rightarrow> False
               | Some b \<Rightarrow> combo_total fsum b \<le> fsum (k_smallest k (map snd pool)))
      then spec_sizes fsum tight pool target ks best
      else (let better = filter (\<lambda>c. case best of None \<Rightarrow> True
                                     | Some b \<Rightarrow> combo_total fsum c < combo_total fsum b)
                           (reaching fsum pool target k)
            in if better = [] then spec_sizes fsum tight pool target ks best
               else if combo_total fsum (first_smallest fsum better) < tight
               then Some (first_smallest fsum better)
               else spec_sizes fsum tight pool target ks (Some (first_smallest fsum better))))"

definition search_spec ::
  "(real list \<Rightarrow> real) \<Rightarrow> real \<Rightarrow> combo \<Rightarrow> real \<Rightarrow> int \<Rightarrow> combo option" where
  "search_spec fsum tight pool target max_group_size =
     spec_sizes fsum tight pool target
       [2 ..< Suc (nat (min max_group_size (int (length pool))))] None"

section \<open>The merge executor (scripts/batch\_merge.py)\<close>

text \<open>
  An entry of the progress ledger, and the ledger with its three lists. The invoices of
  the plan file have the fields of \<open>Invoice\<close> (\<open>org_name\<close> is not written to the file).
\<close>

record ProgressRecord =
  rec_org_id :: int
  rec_order_ids :: "string list"
  rec_total :: real
  rec_time :: string
  rec_message :: string

record Progress =
  completed :: "ProgressRecord list"
  failed :: "ProgressRecord list"
  skipped :: "ProgressRecord list"

text \<open>\<open>load_progress\<close>: the content of the ledger file, or the empty ledger when there is
  no file.\<close>

definition load_progress :: "Progress option \<Rightarrow> Progress" where
  "load_progress file =
     (case file of Some p \<Rightarrow> p | None \<Rightarrow> \<lparr>completed = [], failed = [], skipped = []\<rparr>)"

text \<open>
  What \<open>submit_one_invoice\<close> gives back: a pair \<open>(success, message)\<close>, or an exception.
  What the run does to the outside is a trace of events: opening the connection, one
  submission with its outcome, one write of the ledger file. The log lines and the waiting
  times between attempts and between invoices are not modelled.
\<close>

datatype submit_result = Returned bool string | Raised string

datatype event = Connect | Submit Invoice int submit_result | Save Progress

text \<open>
  The remote side and the clock are outside the program: \<open>submit\<close> answers a submission
  and \<open>now\<close> gives \<open>datetime.now().isoformat()\<close>, both as functions of all that
  happened before; \<open>connect_ok\<close> says whether \<open>websockets.connect\<close> succeeds.
\<close>

record world =
  connect_ok :: bool
  submit :: "event list \<Rightarrow> Invoice \<Rightarrow> int \<Rightarrow> submit_result"
  now :: "event list \<Rightarrow> string"

datatype run_error = ConnectionFailed

text \<open>The loop \<open>for attempt in range(1, retry_limit + 1)\<close> with its \<open>break\<close>; the state is
  \<open>(success, message)\<close> and the trace.\<close>

fun attempts_loop ::
  "world \<Rightarrow> Invoice \<Rightarrow> int list \<Rightarrow> bool \<times> string \<Rightarrow> event list \<Rightarrow> (bool \<times> string) \<times> event list" where
  "attempts_loop w invoice [] (success, message) tr = ((success, message), tr)"
| "attempts_loop w invoice (attempt # rest) (success, message) tr =
     (let res = submit w tr invoice attempt;
          (success', message') =
             (case res of Returned s m \<Rightarrow> (s, m) | Raised e \<Rightarrow> (False, ''Exception: '' @ e));
          tr' = tr @ [Submit invoice attempt res]
      in if success' then ((success', message'), tr')
         else attempts_loop w invoice rest (success', message') tr')"

text \<open>The body of the loop over the remaining invoices.\<close>

definition process_invoice ::
  "world \<Rightarrow> int \<Rightarrow> Progress \<times> event list \<Rightarrow> Invoice \<Rightarrow> Progress \<times> event list" where
  "process_invoice w retry_limit st invoice =
     (case st of (progress, tr) \<Rightarrow>
        (case attempts_loop w invoice [1..retry_limit] (False, []) tr of
           ((success, message), tr') \<Rightarrow>
             (let entry = \<lparr>rec_org_id = org_id invoice, rec_order_ids = order_ids invoice,
                           rec_total = total invoice, rec_time = now w tr',
                           rec_message = message\<rparr>;
                  progress' = (if success
                               then progress\<lparr>completed := completed progress @ [entry]\<rparr>
                               else progress\<lparr>failed := failed progress @ [entry]\<rparr>)
              in (progress', tr' @ [Save progress']))))"

text \<open>The identity key \<open>tuple(sorted(inv["order_ids"]))\<close>, and the invoices that are not
  yet completed.\<close>

definition identity_key :: "string list \<Rightarrow> string list" where
  "identity_key ids = sort ids"

definition remaining_invoices :: "Plan \<Rightarrow> Progress \<Rightarrow> Invoice list" where
  "remaining_invoices plan progress =
     (let completed_set = set (map (\<lambda>r. identity_key (rec_order_ids r)) (completed progress))
      in filter (\<lambda>iv. identity_key (order_ids iv) \<notin> completed_set) (invoices plan))"

text \<open>\<open>batch_merge\<close> returns the ledger it holds at the end and the trace; \<open>Inl\<close> is the
  exception of a connection that cannot be opened.\<close>

definition batch_merge ::
  "world \<Rightarrow> int \<Rightarrow> Plan \<Rightarrow> Progress option \<Rightarrow> run_error + Progress \<times> event list" where
  "batch_merge w retry_limit plan file =
     (let progress = load_progress file;
          remaining = remaining_invoices plan progress
      in if remaining = [] then Inr (progress, [])
         else if \<not> connect_ok w then Inl ConnectionFailed
         else Inr (foldl (process_invoice w retry_limit) (progress, [Connect]) remaining))"

subsection \<open>Notions used to state the executor's properties\<close>

text \<open>A submission that counts as a success, an event that is one, a write of the ledger,
  and the identity keys of the completed entries of a ledger.\<close>

fun result_ok :: "submit_result \<Rightarrow> bool" where
  "result_ok (Returned s m) = s"
| "result_ok (Raised e) = False"

fun is_success :: "event \<Rightarrow> bool" where
  "is_success (Submit iv a r) = result_ok r"
| "is_success e = False"

fun is_save :: "event \<Rightarrow> bool" where
  "is_save (Save p) = True"
| "is_save e = False"

definition completed_keys :: "Progress \<Rightarrow> string list list" where
  "completed_keys p = map (\<lambda>r. identity_key (rec_order_ids r)) (completed p)"

definition plan_keys :: "Plan \<Rightarrow> string list list" where
  "plan_keys plan = map (\<lambda>iv. identity_key (order_ids iv)) (invoices plan)"

subsection \<open>A small catalog\<close>

text \<open>Owner 1 has four eligible records and one ineligible record; owner 2 has two
  eligible records whose sum stays below a target of 100.\<close>

definition ex_orders :: "order list" where
  "ex_orders =
     [\<lparr>orgId = 1, orderId = ''a'', ivcAmount = 70, canHk = True\<rparr>,
      \<lparr>orgId = 2, orderId = ''e'', ivcAmount = 70, canHk = True\<rparr>,
      \<lparr>orgId = 1, orderId = ''b'', ivcAmount = 60, canHk = True\<rparr>,
      \<lparr>orgId = 1, orderId = ''x'', ivcAmount = 500, canHk = False\<rparr>,
      \<lparr>orgId = 1, orderId = ''c'', ivcAmount = 50, canHk = True\<rparr>,
      \<lparr>orgId = 2, orderId = ''f'', ivcAmount = 20, canHk = True\<rparr>,
      \<lparr>orgId = 1, orderId = ''d'', ivcAmount = 40, canHk = True\<rparr>]"

definition ex_invoice1 :: Invoice where
  "ex_invoice1 = \<lparr>org_id = 1, org_name = [], order_ids = [''b'', ''d''],
                   amounts = [60, 40], total = 100\<rparr>"

definition ex_invoice2 :: Invoice where
  "ex_invoice2 = \<lparr>org_id = 1, org_name = [], order_ids = [''a'', ''c''],
                   amounts = [70, 50], total = 120\<rparr>"

definition ex_plan :: Plan where
  "ex_plan =
     \<lparr>invoices = [ex_invoice1, ex_invoice2],
      leftover = [(2, [\<lparr>orgId = 2, orderId = ''e'', ivcAmount = 70, canHk = True\<rparr>,
                       \<lparr>orgId = 2, orderId = ''f'', ivcAmount = 20, canHk = True\<rparr>])]\<rparr>"

text \<open>Three remote sides: one that accepts every submission, one that accepts the second
  attempt only, one that always raises.\<close>

definition ok_world :: world where
  "ok_world = \<lparr>connect_ok = True, submit = (\<lambda>tr iv a. Returned True ''ok''),
               now = (\<lambda>tr. ''t'')\<rparr>"

definition second_try_world :: world where
  "second_try_world = \<lparr>connect_ok = True, submit = (\<lambda>tr iv a. Returned (a = 2) ''r''),
                       now = (\<lambda>tr. ''t'')\<rparr>"

definition down_world :: world where
  "down_world = \<lparr>connect_ok = True, submit = (\<lambda>tr iv a. Raised ''down''),
                 now = (\<lambda>tr. ''t'')\<rparr>"

definition empty_ledger :: Progress where
  "empty_ledger = \<lparr>completed = [], failed = [], skipped = []\<rparr>"


text \<open>A ledger left by an earlier run: the second invoice of \<open>ex_plan\<close> is completed (its
  identifiers are stored in another order), one entry is in the skipped list.\<close>

definition resume_ledger :: Progress where
  "resume_ledger =
     \<lparr>completed = [\<lparr>rec_org_id = 1, rec_order_ids = [''c'', ''a''], rec_total = 120,
                     rec_time = ''t0'', rec_message = ''ok''\<rparr>],
      failed = [],
      skipped = [\<lparr>rec_org_id = 9, rec_order_ids = [''z''], rec_total = 1,
                   rec_time = ''t0'', rec_message = ''s''\<rparr>]\<rparr>"

text \<open>The ledger and the trace of the run of \<open>second_try_world\<close> over \<open>ex_plan\<close> that
  starts from \<open>resume_ledger\<close> with two attempts allowed.\<close>

definition resumed_ledger :: Progress where
  "resumed_ledger =
     \<lparr>completed = [\<lparr>rec_org_id = 1, rec_order_ids = [''c'', ''a''], rec_total = 120,
                     rec_time = ''t0'', rec_message = ''ok''\<rparr>,
                   \<lparr>rec_org_id = 1, rec_order_ids = [''b'', ''d''], rec_total = 100,
                     rec_time = ''t'', rec_message = ''r''\<rparr>],
      failed = [],
      skipped = [\<lparr>rec_org_id = 9, rec_order_ids = [''z''], rec_total = 1,
                   rec_time = ''t0'', rec_message = ''s''\<rparr>]\<rparr>"

definition resumed_trace :: "event list" where
  "resumed_trace =
     [Connect, Submit ex_invoice1 1 (Returned False ''r''),
      Submit ex_invoice1 2 (Returned True ''r''), Save resumed_ledger]"

text \<open>A plan of one invoice, and what \<open>down_world\<close> makes of it with two attempts allowed.\<close>

definition one_plan :: Plan where
  "one_plan = \<lparr>invoices = [ex_invoice1], leftover = []\<rparr>"

definition down_ledger :: Progress where
  "down_ledger =
     \<lparr>completed = [],
      failed = [\<lparr>rec_org_id = 1, rec_order_ids = [''b'', ''d''], rec_total = 100,
                  rec_time = ''t'', rec_message = ''Exception: down''\<rparr>],
      skipped = []\<rparr>"

definition down_trace :: "event list" where
  "down_trace =
     [Connect, Submit ex_invoice1 1 (Raised ''down''), Submit ex_invoice1 2 (Raised ''down''),
      Save down_ledger]"

text \<open>Two owners with the same total; the owner with the larger identifier comes first in
  the input.\<close>

definition tie_orders :: "order list" where
  "tie_orders =
     [\<lparr>orgId = 2, orderId = ''p'', ivcAmount = 50, canHk = True\<rparr>,
      \<lparr>orgId = 1, orderId = ''q'', ivcAmount = 50, canHk = True\<rparr>]"

definition tie_plan :: Plan where
  "tie_plan =
     \<lparr>invoices = [],
      leftover = [(2, [\<lparr>orgId = 2, orderId = ''p'', ivcAmount = 50, canHk = True\<rparr>]),
                  (1, [\<lparr>orgId = 1, orderId = ''q'', ivcAmount = 50, canHk = True\<rparr>])]\<rparr>"

text \<open>A pool whose two largest amounts sum to 110, and the double nearest to 1.10
  (\<open>0x3FF199999999999A\<close>).\<close>

definition boundary_pool :: combo where
  "boundary_pool = [(0, 60), (1, 50), (2, 30), (3, 20), (4, 15)]"

definition double_1_10 :: real where
  "double_1_10 = 2476979795053773 / 2 ^ 51"

text \<open>The ledger and the trace of the run of \<open>ok_world\<close> over \<open>one_plan\<close> that starts from
  \<open>down_ledger\<close>, the ledger that the run of \<open>down_world\<close> over the same plan leaves.\<close>

definition both_ledger :: Progress where
  "both_ledger =
     \<lparr>completed = [\<lparr>rec_org_id = 1, rec_order_ids = [''b'', ''d''], rec_total = 100,
                     rec_time = ''t'', rec_message = ''ok''\<rparr>],
      failed = [\<lparr>rec_org_id = 1, rec_order_ids = [''b'', ''d''], rec_total = 100,
                  rec_time = ''t'', rec_message = ''Exception: down''\<rparr>],
      skipped = []\<rparr>"

definition both_trace :: "event list" where
  "both_trace = [Connect, Submit ex_invoice1 1 (Returned True ''ok''), Save both_ledger]"

section \<open>Properties of the planner\<close>

subsection \<open>The combination search\<close>

lemma combinations_subseq:
  "c \<in> set (combinations xs r) \<Longrightarrow> subseq c xs \<and> length c = r"
  by (induction xs r arbitrary: c rule: combinations.induct) auto

lemma subseq_mset_le: "subseq xs ys \<Longrightarrow> mset xs \<subseteq># mset ys"
  by (induction rule: list_emb.induct) (auto intro: subset_mset.order_trans)

lemma subseq_distinct: "subseq xs ys \<Longrightarrow> distinct ys \<Longrightarrow> distinct xs"
  using subseqs_distinctD by fastforce

lemma subseq_set: "subseq xs ys \<Longrightarrow> set xs \<subseteq> set ys"
  by (induction rule: list_emb.induct) auto

lemma subseq_nth_map:
  assumes "subseq js [0..<length xs]"
  shows "subseq (map (\<lambda>j. xs ! j) js) xs"
proof -
  have "subseq (map (\<lambda>j. xs ! j) js) (map (\<lambda>j. xs ! j) [0..<length xs])"
    using assms by (rule subseq_map)
  then show ?thesis by (simp add: map_nth)
qed

lemma sum_nth_map_snd:
  assumes "set js \<subseteq> {0..<length xs}"
  shows "map (\<lambda>j. map snd xs ! j) js = map snd (map (\<lambda>j. xs ! j) js)"
  using assms by (induction js) auto

lemma try_combo_kept:
  assumes "kept_ok awi target bound (b, bs)" "subseq c [0..<length awi]" "2 \<le> length c" "length c \<le> bound"
    "try_combo awi target c (b, bs, f) = (b', bs', f')"
  shows "kept_ok awi target bound (b', bs')"
proof -
  have "set c \<subseteq> {0..<length awi}" using assms(2) subseq_set by fastforce
  then have eq: "map (\<lambda>j. map snd awi ! j) c = map snd (map (\<lambda>j. awi ! j) c)"
    by (rule sum_nth_map_snd)
  show ?thesis
    using assms subseq_nth_map[OF assms(2)]
    by (auto simp: try_combo_def Let_def eq kept_ok_def split: if_splits)
qed

lemma fold_try_combo_kept:
  assumes "\<forall>c \<in> set cs. subseq c [0..<length awi] \<and> 2 \<le> length c \<and> length c \<le> bound"
    "kept_ok awi target bound (b, bs)"
    "fold (try_combo awi target) cs (b, bs, f) = (b', bs', f')"
  shows "kept_ok awi target bound (b', bs')"
  using assms
proof (induction cs arbitrary: b bs f)
  case Nil
  then show ?case by simp
next
  case (Cons c cs)
  obtain b1 bs1 f1 where s: "try_combo awi target c (b, bs, f) = (b1, bs1, f1)"
    by (cases "try_combo awi target c (b, bs, f)") auto
  have k: "kept_ok awi target bound (b1, bs1)"
    using try_combo_kept[OF Cons.prems(2) _ _ _ s] Cons.prems(1) by simp
  show ?case
    using Cons.IH[OF _ k, of f1] Cons.prems(1,3) s by simp
qed

lemma size_loop_kept:
  assumes "\<forall>sz \<in> set sizes. 2 \<le> sz \<and> sz \<le> bound"
    "kept_ok awi target bound st"
  shows "kept_ok awi target bound (size_loop awi target sizes st)"
  using assms
proof (induction awi target sizes st rule: size_loop.induct)
  case (1 awi target best best_sum)
  then show ?case by simp
next
  case (2 awi target sz sizes best best_sum)
  let ?n = "length awi"
  have rest: "\<forall>s \<in> set sizes. 2 \<le> s \<and> s \<le> bound" using "2.prems"(1) by simp
  have szb: "2 \<le> sz" "sz \<le> bound" using "2.prems"(1) by simp_all
  show ?case
  proof (cases "sum_list (take sz (map snd awi)) < target")
    case True
    then show ?thesis using "2.IH"(1)[OF refl refl True rest "2.prems"(2)] by simp
  next
    case notlow: False
    show ?thesis
    proof (cases "\<not> lt_best (sum_list (drop (?n - sz) (map snd awi))) best_sum")
      case True
      then show ?thesis using "2.IH"(2)[OF refl refl notlow True rest "2.prems"(2)] notlow by simp
    next
      case False
      obtain b1 bs1 f1 where
        fo: "fold (try_combo awi target) (combinations [0..<?n] sz) (best, best_sum, False) = (b1, bs1, f1)"
        by (cases "fold (try_combo awi target) (combinations [0..<?n] sz) (best, best_sum, False)") auto
      have cs: "\<forall>c \<in> set (combinations [0..<?n] sz). subseq c [0..<?n] \<and> 2 \<le> length c \<and> length c \<le> bound"
        using combinations_subseq szb by blast
      have k1: "kept_ok awi target bound (b1, bs1)"
        by (rule fold_try_combo_kept[OF cs "2.prems"(2) fo])
      show ?thesis
      proof (cases "f1 \<and> best_lt bs1 (target * 1.10)")
        case True
        then show ?thesis using notlow False fo k1 by simp
      next
        case nb: False
        have "kept_ok awi target bound (size_loop awi target sizes (b1, bs1))"
          using "2.IH"(3)[OF refl refl notlow _ fo[symmetric] refl] False nb rest k1 by simp
        then show ?thesis using notlow False fo nb by auto
      qed
    qed
  qed
qed

lemma find_best_combo_Some:
  assumes "find_best_combo awi target max_size = Some c"
  shows "subseq c awi \<and> 2 \<le> length c \<and> int (length c) \<le> max_size \<and> target \<le> sum_list (map snd c)"
proof -
  let ?bound = "nat (min (max_size + 1) (int (length awi) + 1)) - 1"
  let ?sizes = "[2 ..< nat (min (max_size + 1) (int (length awi) + 1))]"
  have a: "\<forall>sz \<in> set ?sizes. 2 \<le> sz \<and> sz \<le> ?bound" by auto
  have b: "kept_ok awi target ?bound (None, None)" by (simp add: kept_ok_def)
  have "kept_ok awi target ?bound (size_loop awi target ?sizes (None, None))"
    by (rule size_loop_kept[OF a b])
  moreover have "fst (size_loop awi target ?sizes (None, None)) = Some c"
    using assms by (simp add: find_best_combo_def)
  ultimately have "subseq c awi \<and> 2 \<le> length c \<and> length c \<le> ?bound \<and> target \<le> sum_list (map snd c)"
    by (cases "size_loop awi target ?sizes (None, None)") (auto simp: kept_ok_def)
  then show ?thesis by auto
qed


subsection \<open>The loop of one owner\<close>

lemma remaining_fst:
  "map fst (filter (\<lambda>(i, a). i \<notin> used) (map (\<lambda>i. (i, f i)) xs)) = filter (\<lambda>i. i \<notin> used) xs"
  by (induction xs) auto

lemma remaining_snd:
  "p \<in> set (filter (\<lambda>(i, a). i \<notin> used) (map (\<lambda>i. (i, f i)) xs)) \<Longrightarrow> snd p = f (fst p)"
  by auto

lemma distinct_map_sort_key:
  "distinct (map g (sort_key f xs)) = distinct (map g xs)"
proof -
  have "mset (map g (sort_key f xs)) = mset (map g xs)" by simp
  then show ?thesis by (rule mset_eq_imp_distinct_iff)
qed

lemma combo_facts:
  fixes pool :: "order list"
  defines "rem used \<equiv> filter (\<lambda>(i, a). i \<notin> used) (map (\<lambda>i. (i, ivcAmount (pool ! i))) [0..<length pool])"
  assumes "subseq cmb (sort_key (\<lambda>x. - snd x) (rem used))"
  shows "distinct (map fst cmb)" "set (map fst cmb) \<subseteq> {0..<length pool} - used"
    "map snd cmb = map (\<lambda>i. ivcAmount (pool ! i)) (map fst cmb)"
proof -
  let ?srt = "sort_key (\<lambda>x. - snd x) (rem used)"
  have d: "distinct (map fst ?srt)"
    by (simp add: distinct_map_sort_key rem_def remaining_fst)
  have "subseq (map fst cmb) (map fst ?srt)" using assms(2) by (rule subseq_map)
  then show "distinct (map fst cmb)" using d subseq_distinct by blast
  have s: "set cmb \<subseteq> set (rem used)" using subseq_set[OF assms(2)] by simp
  have "fst ` set (rem used) \<subseteq> {0..<length pool} - used"
    by (auto simp: rem_def)
  then show "set (map fst cmb) \<subseteq> {0..<length pool} - used" using s by auto
  have "\<forall>p \<in> set cmb. snd p = ivcAmount (pool ! fst p)"
    using s by (auto simp: rem_def)
  then show "map snd cmb = map (\<lambda>i. ivcAmount (pool ! i)) (map fst cmb)" by simp
qed

lemma merge_loop_total:
  assumes "used \<subseteq> {0..<length pool}"
  shows "\<exists>used' news idxss.
           merge_loop org pool target max_size used invs = Some (used', invs @ news) \<and>
           list_all2 (invoice_ok pool org target max_size) news idxss \<and>
           distinct (concat idxss) \<and> set (concat idxss) = used' - used \<and>
           used \<subseteq> used' \<and> used' \<subseteq> {0..<length pool}"
  using assms
proof (induction "card ({0..<length pool} - used)" arbitrary: used invs rule: less_induct)
  case less
  let ?rem = "filter (\<lambda>(i, a). i \<notin> used) (map (\<lambda>i. (i, ivcAmount (pool ! i))) [0..<length pool])"
  let ?srt = "sort_key (\<lambda>x. - snd x) ?rem"
  show ?case
  proof (cases "sum_list (map snd ?rem) < target")
    case True
    then have "merge_loop org pool target max_size used invs = Some (used, invs @ [])"
      by (subst merge_loop.simps) simp
    then show ?thesis using less.prems
      by (intro exI[of _ used] exI[of _ "[]"]) simp
  next
    case enough: False
    show ?thesis
    proof (cases "find_best_combo ?srt target max_size")
      case None
      then have "merge_loop org pool target max_size used invs = Some (used, invs @ [])"
        using enough by (subst merge_loop.simps) simp
      then show ?thesis using less.prems
        by (intro exI[of _ used] exI[of _ "[]"]) simp
    next
      case (Some cmb)
      let ?indices = "map fst cmb"
      let ?iv = "\<lparr>org_id = org, org_name = [],
                  order_ids = map (\<lambda>idx. orderId (pool ! idx)) ?indices,
                  amounts = map (\<lambda>idx. ivcAmount (pool ! idx)) ?indices,
                  total = sum_list (map snd cmb)\<rparr>"
      note f = find_best_combo_Some[OF Some]
      have sub: "subseq cmb ?srt" using f by simp
      note c = combo_facts[OF sub]
      have tot: "sum_list (map snd cmb) = sum_list (map (\<lambda>idx. ivcAmount (pool ! idx)) (map fst cmb))"
        by (subst c(3)) (rule refl)
      have ok: "invoice_ok pool org target max_size ?iv ?indices"
        using c(1,2) f tot by (auto simp: invoice_ok_def)
      have ne: "set ?indices \<noteq> {}" using f by auto
      have step: "merge_loop org pool target max_size used invs =
                  merge_loop org pool target max_size (used \<union> set ?indices) (invs @ [?iv])"
        using enough Some by (subst merge_loop.simps) (simp add: Let_def)
      have sub': "used \<union> set ?indices \<subseteq> {0..<length pool}" using less.prems c(2) by auto
      have "?indices \<noteq> []" using f by auto
      then obtain i where i: "i \<in> set ?indices" by (cases ?indices) auto
      then have "i \<in> {0..<length pool} - used" "i \<notin> {0..<length pool} - (used \<union> set ?indices)"
        using c(2) by blast+
      then have "{0..<length pool} - (used \<union> set ?indices) \<subset> {0..<length pool} - used"
        by blast
      then have lt: "card ({0..<length pool} - (used \<union> set ?indices)) < card ({0..<length pool} - used)"
        by (intro psubset_card_mono) auto
      obtain used' news idxss where r:
        "merge_loop org pool target max_size (used \<union> set ?indices) (invs @ [?iv]) = Some (used', (invs @ [?iv]) @ news)"
        "list_all2 (invoice_ok pool org target max_size) news idxss"
        "distinct (concat idxss)" "set (concat idxss) = used' - (used \<union> set ?indices)"
        "used \<union> set ?indices \<subseteq> used'" "used' \<subseteq> {0..<length pool}"
        using less.hyps[OF lt sub', of "invs @ [?iv]"] by blast
      have 1: "merge_loop org pool target max_size used invs = Some (used', invs @ (?iv # news))"
        using step r(1) by simp
      have 2: "list_all2 (invoice_ok pool org target max_size) (?iv # news) (?indices # idxss)"
        using ok r(2) by simp
      have 3: "distinct (concat (?indices # idxss))"
        using c(1) r(3,4) by auto
      have 4: "set (concat (?indices # idxss)) = used' - used"
        using r(4,5) c(2) by auto
      show ?thesis
        using 1 2 3 4 r(5,6) by (intro exI[of _ used'] exI[of _ "?iv # news"] exI[of _ "?indices # idxss"]) auto
    qed
  qed
qed


subsection \<open>One owner group\<close>

lemma update_fresh: "k \<notin> fst ` set al \<Longrightarrow> AList.update k v al = al @ [(k, v)]"
  by (induction al) auto

lemma mset_used_split:
  assumes "distinct js" "set js = used" "used \<subseteq> {0..<n}"
  shows "mset js + mset (filter (\<lambda>i. i \<notin> used) [0..<n]) = mset [0..<n]"
proof -
  have "set js = set (filter (\<lambda>i. i \<in> used) [0..<n])" using assms(2,3) by auto
  then have "mset js = mset (filter (\<lambda>i. i \<in> used) [0..<n])"
    by (metis assms(1) distinct_filter distinct_upt set_eq_iff_mset_eq_distinct)
  moreover have "mset (filter (\<lambda>i. i \<in> used) xs) + mset (filter (\<lambda>i. i \<notin> used) xs) = mset xs" for xs :: "nat list"
    by (induction xs) auto
  ultimately show ?thesis by metis
qed

lemma mset_pool_split:
  assumes "distinct js" "set js = used" "used \<subseteq> {0..<length pool}"
  shows "mset (map (\<lambda>i. pool ! i) js) + mset (map (\<lambda>i. pool ! i) (filter (\<lambda>i. i \<notin> used) [0..<length pool])) = mset pool"
proof -
  have "mset (map (\<lambda>i. pool ! i) (js @ filter (\<lambda>i. i \<notin> used) [0..<length pool])) = mset (map (\<lambda>i. pool ! i) [0..<length pool])"
    using mset_used_split[OF assms] by (metis mset_append mset_map)
  then show ?thesis by (simp add: map_nth)
qed

lemma process_org_total:
  fixes by_org org
  defines "pool \<equiv> by_org_get by_org org"
  assumes "org \<notin> fst ` set (leftover plan)"
  shows "\<exists>plan' news idxss lo.
           process_org by_org target max_size plan org = Some plan' \<and>
           invoices plan' = invoices plan @ news \<and>
           list_all2 (invoice_ok pool org target max_size) news idxss \<and>
           (leftover plan' = leftover plan @ [(org, lo)] \<or> lo = [] \<and> leftover plan' = leftover plan) \<and>
           mset (map (\<lambda>i. pool ! i) (concat idxss)) + mset lo = mset pool"
proof (cases "sum_list (map ivcAmount pool) < target")
  case True
  then have "process_org by_org target max_size plan org = Some (plan\<lparr>leftover := leftover plan @ [(org, pool)]\<rparr>)"
    using assms by (simp add: process_org_def update_fresh)
  then show ?thesis
    by (intro exI[of _ "plan\<lparr>leftover := leftover plan @ [(org, pool)]\<rparr>"] exI[of _ "[]"] exI[of _ pool]) simp
next
  case False
  obtain used' news idxss where r:
    "merge_loop org pool target max_size {} (invoices plan) = Some (used', invoices plan @ news)"
    "list_all2 (invoice_ok pool org target max_size) news idxss"
    "distinct (concat idxss)" "set (concat idxss) = used' - {}" "used' \<subseteq> {0..<length pool}"
    using merge_loop_total[of "{}" pool org target max_size "invoices plan"] by auto
  let ?lo = "map (\<lambda>i. pool ! i) (filter (\<lambda>i. i \<notin> used') [0..<length pool])"
  let ?plan' = "\<lparr>invoices = invoices plan @ news,
                 leftover = (if ?lo \<noteq> [] then AList.update org ?lo (leftover plan) else leftover plan)\<rparr>"
  have p: "process_org by_org target max_size plan org = Some ?plan'"
    using False r(1) by (simp add: process_org_def pool_def Let_def)
  have l: "leftover ?plan' = leftover plan @ [(org, ?lo)] \<or> ?lo = [] \<and> leftover ?plan' = leftover plan"
    using assms(2) by (simp add: update_fresh)
  have m: "mset (map (\<lambda>i. pool ! i) (concat idxss)) + mset ?lo = mset pool"
    using mset_pool_split[OF r(3) _ r(5)] r(4) by simp
  show ?thesis
    using p l m r(2) by (intro exI[of _ ?plan'] exI[of _ news] exI[of _ idxss] exI[of _ ?lo]) simp
qed

lemma invoice_ok_entries:
  "invoice_ok pool org target max_size iv idxs \<Longrightarrow>
     invoice_entries iv = map record_key (map (\<lambda>i. pool ! i) idxs)"
  by (simp add: invoice_ok_def invoice_entries_def record_key_def zip_map_map comp_def zip_same_conv_map)

lemma news_entries:
  assumes "list_all2 (invoice_ok pool org target max_size) news idxss"
  shows "concat (map invoice_entries (filter (\<lambda>iv. org_id iv = k) news)) =
           (if k = org then map record_key (map (\<lambda>i. pool ! i) (concat idxss)) else [])"
  using assms
proof (induction rule: list_all2_induct)
  case Nil
  then show ?case by simp
next
  case (Cons iv news idxs idxss)
  have "org_id iv = org" using Cons.hyps(1) by (simp add: invoice_ok_def)
  then show ?case using Cons.IH invoice_ok_entries[OF Cons.hyps(1)] by auto
qed

lemma by_org_append_get:
  "by_org_get (by_org_append d x) k =
     (if k = orgId x then by_org_get d k @ [x] else by_org_get d k)"
  by (induction d x rule: by_org_append.induct) (auto simp: by_org_get_def)

lemma by_org_append_keys:
  "map fst (by_org_append d x) =
     (if orgId x \<in> set (map fst d) then map fst d else map fst d @ [orgId x])"
  by (induction d x rule: by_org_append.induct) auto

lemma foldl_by_org_get:
  "by_org_get (foldl by_org_append d xs) k = by_org_get d k @ filter (\<lambda>x. orgId x = k) xs"
  by (induction xs arbitrary: d) (auto simp: by_org_append_get)

lemma foldl_by_org_distinct:
  "distinct (map fst d) \<Longrightarrow> distinct (map fst (foldl by_org_append d xs))"
proof (induction xs arbitrary: d)
  case Nil
  then show ?case by simp
next
  case (Cons x xs)
  have "distinct (map fst (by_org_append d x))"
    using Cons.prems by (simp add: by_org_append_keys)
  then show ?case using Cons.IH by simp
qed

lemma group_by_org_get:
  "by_org_get (group_by_org hk) k = filter (\<lambda>x. orgId x = k) hk"
proof -
  have "by_org_get [] k = []" by (simp add: by_org_get_def)
  then show ?thesis by (simp add: group_by_org_def foldl_by_org_get)
qed

lemma group_by_org_distinct: "distinct (map fst (group_by_org hk))"
  by (simp add: group_by_org_def foldl_by_org_distinct)

lemma org_order_set: "set (org_order by_org) = fst ` set by_org"
  by (simp add: org_order_def)

lemma org_order_distinct: "distinct (org_order by_org) = distinct (map fst by_org)"
  by (simp add: org_order_def)

lemma leftover_of_append:
  "leftover_of (plan\<lparr>leftover := leftover plan @ [(org, lo)]\<rparr>) k =
     leftover_of plan k @ (if k = org then lo else [])"
  by (simp add: leftover_of_def)

lemma list_all2_ex: "list_all2 P xs ys \<Longrightarrow> x \<in> set xs \<Longrightarrow> \<exists>y. P x y"
  by (induction rule: list_all2_induct) auto

text \<open>What one owner group adds to a plan.\<close>

lemma process_org_effect:
  fixes by_org org
  defines "pool \<equiv> by_org_get by_org org"
  assumes "org \<notin> fst ` set (leftover plan)"
  shows "\<exists>plan'. process_org by_org target max_size plan org = Some plan' \<and>
           (\<forall>k. mset (invoiced plan' k) + mset (map record_key (leftover_of plan' k)) =
                 mset (invoiced plan k) + mset (map record_key (leftover_of plan k)) +
                 (if k = org then mset (map record_key pool) else {#})) \<and>
           (\<forall>k. mset (leftover_of plan' k) \<subseteq>#
                 mset (leftover_of plan k) + (if k = org then mset pool else {#})) \<and>
           (\<forall>iv \<in> set (invoices plan'). iv \<in> set (invoices plan) \<or>
                 (\<exists>idxs. invoice_ok pool org target max_size iv idxs)) \<and>
           fst ` set (leftover plan') \<subseteq> insert org (fst ` set (leftover plan))"
proof -
  obtain plan' news idxss lo where r:
    "process_org by_org target max_size plan org = Some plan'"
    "invoices plan' = invoices plan @ news"
    "list_all2 (invoice_ok pool org target max_size) news idxss"
    "leftover plan' = leftover plan @ [(org, lo)] \<or> lo = [] \<and> leftover plan' = leftover plan"
    "mset (map (\<lambda>i. pool ! i) (concat idxss)) + mset lo = mset pool"
    using process_org_total[OF assms(2), of by_org target max_size] unfolding pool_def by blast
  have inv: "invoiced plan' k = invoiced plan k @
                (if k = org then map record_key (map (\<lambda>i. pool ! i) (concat idxss)) else [])" for k
    using news_entries[OF r(3), of k] by (simp add: invoiced_def r(2))
  have lo: "leftover_of plan' k = leftover_of plan k @ (if k = org then lo else [])" for k
    using r(4) by (auto simp: leftover_of_def)
  have m: "mset (map record_key (map (\<lambda>i. pool ! i) (concat idxss))) + mset (map record_key lo) =
           mset (map record_key pool)"
    using arg_cong[OF r(5), of "image_mset record_key"] by (simp add: multiset.map_comp)
  have 1: "mset (invoiced plan' k) + mset (map record_key (leftover_of plan' k)) =
           mset (invoiced plan k) + mset (map record_key (leftover_of plan k)) +
           (if k = org then mset (map record_key pool) else {#})" for k
    using m by (simp add: inv lo)
  have "mset lo \<subseteq># mset pool" using r(5) by (metis mset_subset_eq_add_right)
  then have 2: "mset (leftover_of plan' k) \<subseteq># mset (leftover_of plan k) + (if k = org then mset pool else {#})" for k
    by (simp add: lo)
  have 3: "\<forall>iv \<in> set (invoices plan'). iv \<in> set (invoices plan) \<or>
                 (\<exists>idxs. invoice_ok pool org target max_size iv idxs)"
    using list_all2_ex[OF r(3)] by (auto simp: r(2))
  have 4: "fst ` set (leftover plan') \<subseteq> insert org (fst ` set (leftover plan))"
    using r(4) by auto
  show ?thesis using r(1) 1 2 3 4 by blast
qed

subsection \<open>The whole plan\<close>

lemma foldl_by_org_keys:
  "fst ` set (foldl by_org_append d xs) = fst ` set d \<union> orgId ` set xs"
proof (induction xs arbitrary: d)
  case Nil
  then show ?case by simp
next
  case (Cons x xs)
  have "set (map fst (by_org_append d x)) = insert (orgId x) (set (map fst d))"
    by (auto simp: by_org_append_keys)
  then have "fst ` set (by_org_append d x) = insert (orgId x) (fst ` set d)" by simp
  then show ?case using Cons.IH[of "by_org_append d x"] by auto
qed

lemma group_by_org_keys: "fst ` set (group_by_org hk) = orgId ` set hk"
  by (simp add: group_by_org_def foldl_by_org_keys)

lemma process_orgs_effect:
  assumes "distinct orgs" "fst ` set (leftover plan) \<inter> set orgs = {}"
  shows "\<exists>plan'. process_orgs by_org target max_size orgs plan = Some plan' \<and>
           (\<forall>k. mset (invoiced plan' k) + mset (map record_key (leftover_of plan' k)) =
                 mset (invoiced plan k) + mset (map record_key (leftover_of plan k)) +
                 (if k \<in> set orgs then mset (map record_key (by_org_get by_org k)) else {#})) \<and>
           (\<forall>k. mset (leftover_of plan' k) \<subseteq>#
                 mset (leftover_of plan k) + (if k \<in> set orgs then mset (by_org_get by_org k) else {#})) \<and>
           (\<forall>iv \<in> set (invoices plan'). iv \<in> set (invoices plan) \<or>
                 (\<exists>k idxs. k \<in> set orgs \<and> invoice_ok (by_org_get by_org k) k target max_size iv idxs)) \<and>
           fst ` set (leftover plan') \<subseteq> fst ` set (leftover plan) \<union> set orgs"
  using assms
proof (induction orgs arbitrary: plan)
  case Nil
  then show ?case by simp
next
  case (Cons org orgs)
  have fresh: "org \<notin> fst ` set (leftover plan)" using Cons.prems(2) by auto
  obtain p1 where p1:
    "process_org by_org target max_size plan org = Some p1"
    "\<And>k. mset (invoiced p1 k) + mset (map record_key (leftover_of p1 k)) =
                 mset (invoiced plan k) + mset (map record_key (leftover_of plan k)) +
                 (if k = org then mset (map record_key (by_org_get by_org org)) else {#})"
    "\<And>k. mset (leftover_of p1 k) \<subseteq>#
                 mset (leftover_of plan k) + (if k = org then mset (by_org_get by_org org) else {#})"
    "\<And>iv. iv \<in> set (invoices p1) \<Longrightarrow> iv \<in> set (invoices plan) \<or>
                 (\<exists>idxs. invoice_ok (by_org_get by_org org) org target max_size iv idxs)"
    "fst ` set (leftover p1) \<subseteq> insert org (fst ` set (leftover plan))"
    using process_org_effect[OF fresh, of by_org target max_size] by blast
  have d: "distinct orgs" "org \<notin> set orgs" using Cons.prems(1) by simp_all
  have disj: "fst ` set (leftover p1) \<inter> set orgs = {}"
    using p1(5) Cons.prems(2) d(2) by auto
  obtain p2 where p2:
    "process_orgs by_org target max_size orgs p1 = Some p2"
    "\<And>k. mset (invoiced p2 k) + mset (map record_key (leftover_of p2 k)) =
                 mset (invoiced p1 k) + mset (map record_key (leftover_of p1 k)) +
                 (if k \<in> set orgs then mset (map record_key (by_org_get by_org k)) else {#})"
    "\<And>k. mset (leftover_of p2 k) \<subseteq>#
                 mset (leftover_of p1 k) + (if k \<in> set orgs then mset (by_org_get by_org k) else {#})"
    "\<And>iv. iv \<in> set (invoices p2) \<Longrightarrow> iv \<in> set (invoices p1) \<or>
                 (\<exists>k idxs. k \<in> set orgs \<and> invoice_ok (by_org_get by_org k) k target max_size iv idxs)"
    "fst ` set (leftover p2) \<subseteq> fst ` set (leftover p1) \<union> set orgs"
    using Cons.IH[OF d(1) disj] by blast
  have 0: "process_orgs by_org target max_size (org # orgs) plan = Some p2"
    using p1(1) p2(1) by simp
  have 1: "mset (invoiced p2 k) + mset (map record_key (leftover_of p2 k)) =
                 mset (invoiced plan k) + mset (map record_key (leftover_of plan k)) +
                 (if k \<in> set (org # orgs) then mset (map record_key (by_org_get by_org k)) else {#})" for k
    using p1(2)[of k] p2(2)[of k] d(2) by auto
  have 2: "mset (leftover_of p2 k) \<subseteq>#
                 mset (leftover_of plan k) + (if k \<in> set (org # orgs) then mset (by_org_get by_org k) else {#})" for k
  proof -
    have "mset (leftover_of p2 k) \<subseteq>#
            (mset (leftover_of plan k) + (if k = org then mset (by_org_get by_org org) else {#})) +
            (if k \<in> set orgs then mset (by_org_get by_org k) else {#})"
      using p2(3)[of k] p1(3)[of k]
      by (meson subset_mset.add_right_mono subset_mset.order_trans)
    then show ?thesis using d(2) by (auto split: if_splits)
  qed
  have 3: "iv \<in> set (invoices plan) \<or>
             (\<exists>k idxs. k \<in> set (org # orgs) \<and> invoice_ok (by_org_get by_org k) k target max_size iv idxs)"
    if "iv \<in> set (invoices p2)" for iv
    using p2(4)[OF that] p1(4)[of iv] by (metis list.set_intros(1,2))
  have 4: "fst ` set (leftover p2) \<subseteq> fst ` set (leftover plan) \<union> set (org # orgs)"
    using p1(5) p2(5) by (simp only: list.set) blast
  show ?case using 0 1 2 3 4 by blast
qed

lemma nth_map_mset_le:
  assumes "distinct js" "set js \<subseteq> {0..<length xs}"
  shows "mset (map (\<lambda>i. xs ! i) js) \<subseteq># mset xs"
  using mset_pool_split[OF assms(1) refl assms(2)] by (metis mset_subset_eq_add_left)

text \<open>The planner returns, and what it returns.\<close>

lemma optimize_facts:
  "\<exists>plan. optimize orders target max_size = Some plan \<and>
     (\<forall>k. mset (invoiced plan k) + mset (map record_key (leftover_of plan k)) =
           mset (map record_key (eligible orders k))) \<and>
     (\<forall>k. mset (leftover_of plan k) \<subseteq># mset (eligible orders k)) \<and>
     (\<forall>iv \<in> set (invoices plan).
        \<exists>idxs. invoice_ok (eligible orders (org_id iv)) (org_id iv) target max_size iv idxs)"
proof -
  let ?hk = "filter canHk orders"
  let ?by = "group_by_org ?hk"
  let ?p0 = "\<lparr>invoices = [], leftover = []\<rparr>"
  have get: "by_org_get ?by k = eligible orders k" for k
    by (simp add: group_by_org_get eligible_def conj_commute)
  have d: "distinct (org_order ?by)"
    by (simp add: org_order_distinct group_by_org_distinct)
  have nokey: "eligible orders k = []" if "k \<notin> set (org_order ?by)" for k
  proof -
    have "k \<notin> orgId ` set ?hk" using that by (simp add: org_order_set group_by_org_keys)
    then show ?thesis by (auto simp: eligible_def filter_empty_conv)
  qed
  obtain plan where p:
    "process_orgs ?by target max_size (org_order ?by) ?p0 = Some plan"
    "\<And>k. mset (invoiced plan k) + mset (map record_key (leftover_of plan k)) =
                 mset (invoiced ?p0 k) + mset (map record_key (leftover_of ?p0 k)) +
                 (if k \<in> set (org_order ?by) then mset (map record_key (by_org_get ?by k)) else {#})"
    "\<And>k. mset (leftover_of plan k) \<subseteq>#
                 mset (leftover_of ?p0 k) + (if k \<in> set (org_order ?by) then mset (by_org_get ?by k) else {#})"
    "\<And>iv. iv \<in> set (invoices plan) \<Longrightarrow> iv \<in> set (invoices ?p0) \<or>
                 (\<exists>k idxs. k \<in> set (org_order ?by) \<and> invoice_ok (by_org_get ?by k) k target max_size iv idxs)"
    using process_orgs_effect[OF d, of ?p0 ?by target max_size] by auto
  have 0: "optimize orders target max_size = Some plan"
    using p(1) by (simp add: optimize_def Let_def)
  have 1: "mset (invoiced plan k) + mset (map record_key (leftover_of plan k)) =
           mset (map record_key (eligible orders k))" for k
    using p(2)[of k] nokey[of k] by (simp add: get invoiced_def leftover_of_def)
  have 2: "mset (leftover_of plan k) \<subseteq># mset (eligible orders k)" for k
    using p(3)[of k] nokey[of k] by (simp add: get leftover_of_def split: if_splits)
  have 3: "\<exists>idxs. invoice_ok (eligible orders (org_id iv)) (org_id iv) target max_size iv idxs"
    if iv_in: "iv \<in> set (invoices plan)" for iv
  proof -
    obtain k idxs where ki: "invoice_ok (eligible orders k) k target max_size iv idxs"
      using p(4)[OF iv_in] by (auto simp: get)
    then have "org_id iv = k" by (simp add: invoice_ok_def)
    then show ?thesis using ki by blast
  qed
  show ?thesis using 0 1 2 3 by blast
qed

subsection \<open>The claims about the planner\<close>

lemmas planner_eval = optimize_def group_by_org_def org_order_def by_org_get_def process_org_def
  merge_loop.simps find_best_combo_def try_combo_def lt_best_def best_lt_def upt_rec eval_nat_numeral

lemma optimize_example: "optimize ex_orders 100 3 = Some ex_plan"
  by (simp add: ex_orders_def ex_plan_def ex_invoice1_def ex_invoice2_def planner_eval)

lemma ex_invoice1_in_plan: "ex_invoice1 \<in> set (invoices ex_plan)"
  by (simp add: ex_plan_def)

text \<open>
  C1. In the plan the planner returns, the records of an owner that sit in its invoices
  together with the records of its leftover lists are exactly the eligible input records of
  that owner, each as often as the input has it: none is lost, none is doubled, none is in
  an invoice and in a leftover list. Records are compared by identifier and amount, which
  is what an invoice keeps of them. Every leftover record is an eligible input record of
  its owner, so an ineligible record is nowhere in the plan. This holds for every target
  and every maximal size.
\<close>

theorem planner_partition:
  assumes "optimize orders target max_size = Some plan"
  shows "mset (invoiced plan k) + mset (map record_key (leftover_of plan k)) =
           mset (map record_key (eligible orders k)) \<and>
         mset (leftover_of plan k) \<subseteq># mset (eligible orders k)"
  using optimize_facts[of orders target max_size] assms by auto

theorem planner_partition_witness:
  "optimize ex_orders 100 3 = Some ex_plan \<and>
   mset (invoiced ex_plan 1) + mset (map record_key (leftover_of ex_plan 1)) =
     mset (map record_key (eligible ex_orders 1)) \<and>
   mset (leftover_of ex_plan 1) \<subseteq># mset (eligible ex_orders 1)"
  using planner_partition[OF optimize_example, of 1] optimize_example by simp

text \<open>
  C2. Every invoice of the returned plan has a total that is the sum of its amounts, at
  most \<open>max_size\<close> records and a total of at least \<open>target\<close>; its identifiers and
  amounts are those of eligible input records that all have the invoice's owner.
\<close>

theorem invoice_invariant:
  assumes "optimize orders target max_size = Some plan" "iv \<in> set (invoices plan)"
  shows "total iv = sum_list (amounts iv) \<and> int (count iv) \<le> max_size \<and> target \<le> total iv \<and>
         (\<exists>recs. mset recs \<subseteq># mset (eligible orders (org_id iv)) \<and>
                 list_all (\<lambda>r. orgId r = org_id iv) recs \<and>
                 order_ids iv = map orderId recs \<and> amounts iv = map ivcAmount recs)"
proof -
  let ?pool = "eligible orders (org_id iv)"
  obtain idxs where ok: "invoice_ok ?pool (org_id iv) target max_size iv idxs"
    using optimize_facts[of orders target max_size] assms by auto
  let ?recs = "map (\<lambda>i. ?pool ! i) idxs"
  have sub: "mset ?recs \<subseteq># mset ?pool"
    using ok by (intro nth_map_mset_le) (simp_all add: invoice_ok_def)
  have "set ?recs \<subseteq> set ?pool" using sub by (metis set_mset_mono set_mset_mset)
  then have own: "list_all (\<lambda>r. orgId r = org_id iv) ?recs"
    unfolding list_all_iff by (auto simp: eligible_def)
  have ids: "order_ids iv = map orderId ?recs" "amounts iv = map ivcAmount ?recs"
    using ok by (simp_all add: invoice_ok_def comp_def)
  have "total iv = sum_list (amounts iv)" "int (count iv) \<le> max_size" "target \<le> total iv"
    using ok by (auto simp: invoice_ok_def count_def)
  then show ?thesis using sub own ids by blast
qed

theorem invoice_invariant_witness:
  "optimize ex_orders 100 3 = Some ex_plan \<and> ex_invoice1 \<in> set (invoices ex_plan) \<and>
   total ex_invoice1 = sum_list (amounts ex_invoice1) \<and> int (count ex_invoice1) \<le> 3 \<and>
   100 \<le> total ex_invoice1 \<and>
   (\<exists>recs. mset recs \<subseteq># mset (eligible ex_orders (org_id ex_invoice1)) \<and>
           list_all (\<lambda>r. orgId r = org_id ex_invoice1) recs \<and>
           order_ids ex_invoice1 = map orderId recs \<and> amounts ex_invoice1 = map ivcAmount recs)"
  using invoice_invariant[OF optimize_example ex_invoice1_in_plan] optimize_example
    ex_invoice1_in_plan by simp

text \<open>
  C5, as the code has it. The planner checks neither \<open>target\<close> nor \<open>max_size\<close> and has
  no error exit: for every list of records, every target and every maximal size, also
  non-positive ones, its loops end and it returns a plan.
\<close>

theorem optimize_always_returns:
  "\<exists>plan. optimize orders target max_size = Some plan"
  using optimize_facts[of orders target max_size] by blast

text \<open>With target 0 and maximal size 0 the planner returns a plan: all eligible records
  are leftover.\<close>

theorem optimize_nonpositive_counterexample:
  "optimize ex_orders 0 0 =
     Some \<lparr>invoices = [],
           leftover = [(1, [\<lparr>orgId = 1, orderId = ''a'', ivcAmount = 70, canHk = True\<rparr>,
                            \<lparr>orgId = 1, orderId = ''b'', ivcAmount = 60, canHk = True\<rparr>,
                            \<lparr>orgId = 1, orderId = ''c'', ivcAmount = 50, canHk = True\<rparr>,
                            \<lparr>orgId = 1, orderId = ''d'', ivcAmount = 40, canHk = True\<rparr>]),
                       (2, [\<lparr>orgId = 2, orderId = ''e'', ivcAmount = 70, canHk = True\<rparr>,
                            \<lparr>orgId = 2, orderId = ''f'', ivcAmount = 20, canHk = True\<rparr>])]\<rparr>"
  by (simp add: ex_orders_def planner_eval)

text \<open>
  C8. One owner with the amounts 70, 60, 50, 40 in this order, target 100, maximal size 3:
  the first invoice is the records of 60 and 40 (total 100), the second the records of 70
  and 50 (total 120), nothing is leftover, and the plan has exactly these two invoices.
\<close>

theorem optimize_worked_example:
  "optimize
     [\<lparr>orgId = k, orderId = a, ivcAmount = 70, canHk = True\<rparr>,
      \<lparr>orgId = k, orderId = b, ivcAmount = 60, canHk = True\<rparr>,
      \<lparr>orgId = k, orderId = c, ivcAmount = 50, canHk = True\<rparr>,
      \<lparr>orgId = k, orderId = d, ivcAmount = 40, canHk = True\<rparr>] 100 3 =
   Some \<lparr>invoices =
           [\<lparr>org_id = k, org_name = [], order_ids = [b, d], amounts = [60, 40], total = 100\<rparr>,
            \<lparr>org_id = k, org_name = [], order_ids = [a, c], amounts = [70, 50], total = 120\<rparr>],
         leftover = []\<rparr>"
  by (simp add: planner_eval)

lemma length_le_concat: "x \<in> set xs \<Longrightarrow> length (f x) \<le> length (concat (map f xs))"
  by (induction xs) auto

text \<open>
  C9. Every invoice of the returned plan has at least two records; and a catalog of a
  single record gives a plan without invoices, whatever the amount of the record is.
\<close>

theorem invoice_at_least_two:
  "(optimize orders target max_size = Some plan \<and> iv \<in> set (invoices plan) \<longrightarrow> 2 \<le> count iv) \<and>
   (\<exists>p. optimize [x] target max_size = Some p \<and> invoices p = [])"
proof -
  have two: "2 \<le> count iv'"
    if h: "optimize os target max_size = Some p" "iv' \<in> set (invoices p)" for os p iv'
  proof -
    obtain idxs where "invoice_ok (eligible os (org_id iv')) (org_id iv') target max_size iv' idxs"
      using optimize_facts[of os target max_size] h by auto
    then show ?thesis by (simp add: invoice_ok_def count_def)
  qed
  obtain p where p: "optimize [x] target max_size = Some p"
    using optimize_facts[of "[x]" target max_size] by blast
  have "invoices p = []"
  proof (rule ccontr)
    assume "invoices p \<noteq> []"
    then obtain iv' where iv': "iv' \<in> set (invoices p)" by (cases "invoices p") auto
    have eq: "mset (invoiced p (org_id iv')) + mset (map record_key (leftover_of p (org_id iv'))) =
              mset (map record_key (eligible [x] (org_id iv')))"
      using optimize_facts[of "[x]" target max_size] p by auto
    have "mset (invoiced p (org_id iv')) \<subseteq># mset (map record_key (eligible [x] (org_id iv')))"
      by (subst eq[symmetric]) (rule mset_subset_eq_add_left)
    then have "size (mset (invoiced p (org_id iv'))) \<le> size (mset (map record_key (eligible [x] (org_id iv'))))"
      by (rule size_mset_mono)
    then have le: "length (invoiced p (org_id iv')) \<le> 1" by (simp add: eligible_def split: if_splits)
    obtain idxs where ok: "invoice_ok (eligible [x] (org_id iv')) (org_id iv') target max_size iv' idxs"
      using optimize_facts[of "[x]" target max_size] p iv' by auto
    have "length (invoice_entries iv') = count iv'"
      using ok by (simp add: invoice_entries_def invoice_ok_def count_def)
    moreover have "length (invoice_entries iv') \<le> length (invoiced p (org_id iv'))"
      unfolding invoiced_def using iv' by (intro length_le_concat) simp
    ultimately show False using two[OF p iv'] le by linarith
  qed
  then show ?thesis using two p by blast
qed

theorem invoice_at_least_two_witness:
  "(optimize ex_orders 100 3 = Some ex_plan \<and> ex_invoice1 \<in> set (invoices ex_plan)) \<and>
   2 \<le> count ex_invoice1"
  using invoice_at_least_two[of ex_orders 100 3 ex_plan ex_invoice1] optimize_example
    ex_invoice1_in_plan by simp

subsection \<open>The order of the owners\<close>

lemma foldl_by_org_first_seen:
  "map fst (foldl by_org_append d xs) =
     map fst d @ filter (\<lambda>k. k \<notin> fst ` set d) (first_seen (map orgId xs))"
proof (induction xs arbitrary: d)
  case Nil
  then show ?case by simp
next
  case (Cons x xs)
  let ?d = "by_org_append d x"
  have k: "map fst ?d = (if orgId x \<in> fst ` set d then map fst d else map fst d @ [orgId x])"
    using by_org_append_keys[of d x] by simp
  have s: "fst ` set ?d = insert (orgId x) (fst ` set d)"
    using arg_cong[OF k, of set] by (auto split: if_splits)
  have f: "filter (\<lambda>k. k \<notin> fst ` set ?d) ys =
           filter (\<lambda>k. k \<notin> fst ` set d) (filter (\<lambda>y. y \<noteq> orgId x) ys)" for ys
    by (induction ys) (auto simp: s)
  show ?case
    using Cons.IH[of ?d] by (simp add: k f)
qed

lemma group_by_org_first_seen:
  "map fst (group_by_org hk) = first_seen (map orgId hk)"
  by (simp add: group_by_org_def foldl_by_org_first_seen)

lemma org_order_key:
  "- sum_list (map ivcAmount (by_org_get (group_by_org (filter canHk orders)) k)) =
     - group_total orders k"
  by (simp add: group_by_org_get eligible_def group_total_def conj_commute)

lemma remdups_adj_replicate_fresh:
  "x \<notin> set ys \<Longrightarrow> remdups_adj (replicate (Suc m) x @ ys) = x # remdups_adj ys"
proof (induction m)
  case 0
  then show ?case by (cases ys) auto
next
  case (Suc m)
  then show ?case by simp
qed

lemma list_all2_org_ids:
  "list_all2 (invoice_ok pool org target max_size) news idxss \<Longrightarrow>
     map org_id news = replicate (length news) org"
  by (induction rule: list_all2_induct) (simp_all add: invoice_ok_def)

lemma process_org_shape:
  assumes "org \<notin> fst ` set (leftover plan)"
  shows "\<exists>plan' m ks. process_org by_org target max_size plan org = Some plan' \<and>
           map org_id (invoices plan') = map org_id (invoices plan) @ replicate m org \<and>
           map fst (leftover plan') = map fst (leftover plan) @ ks \<and> (ks = [] \<or> ks = [org])"
proof -
  obtain plan' news idxss lo where r:
    "process_org by_org target max_size plan org = Some plan'"
    "invoices plan' = invoices plan @ news"
    "list_all2 (invoice_ok (by_org_get by_org org) org target max_size) news idxss"
    "leftover plan' = leftover plan @ [(org, lo)] \<or> lo = [] \<and> leftover plan' = leftover plan"
    using process_org_total[OF assms, of by_org target max_size] by (elim exE conjE) (rule that)
  have i: "map org_id (invoices plan') = map org_id (invoices plan) @ replicate (length news) org"
    using list_all2_org_ids[OF r(3)] by (simp add: r(2))
  from r(4) show ?thesis
  proof
    assume "leftover plan' = leftover plan @ [(org, lo)]"
    then have "map fst (leftover plan') = map fst (leftover plan) @ [org]" by simp
    then show ?thesis using r(1) i by blast
  next
    assume "lo = [] \<and> leftover plan' = leftover plan"
    then have "map fst (leftover plan') = map fst (leftover plan) @ []" by simp
    then show ?thesis using r(1) i by blast
  qed
qed

lemma process_orgs_shape:
  assumes "distinct orgs" "fst ` set (leftover plan) \<inter> set orgs = {}"
  shows "\<exists>plan' os ks. process_orgs by_org target max_size orgs plan = Some plan' \<and>
           map org_id (invoices plan') = map org_id (invoices plan) @ os \<and>
           subseq (remdups_adj os) orgs \<and>
           map fst (leftover plan') = map fst (leftover plan) @ ks \<and> subseq ks orgs"
  using assms
proof (induction orgs arbitrary: plan)
  case Nil
  then show ?case by simp
next
  case (Cons org orgs)
  have fresh: "org \<notin> fst ` set (leftover plan)" using Cons.prems(2) by auto
  obtain p1 m k1 where p1:
    "process_org by_org target max_size plan org = Some p1"
    "map org_id (invoices p1) = map org_id (invoices plan) @ replicate m org"
    "map fst (leftover p1) = map fst (leftover plan) @ k1" "k1 = [] \<or> k1 = [org]"
    using process_org_shape[OF fresh, of by_org target max_size] by (elim exE conjE) (rule that)
  have d: "distinct orgs" "org \<notin> set orgs" using Cons.prems(1) by simp_all
  have "set (map fst (leftover p1)) \<subseteq> insert org (set (map fst (leftover plan)))"
    using p1(3,4) by auto
  then have disj: "fst ` set (leftover p1) \<inter> set orgs = {}"
    using Cons.prems(2) d(2) by auto
  obtain p2 os ks where p2:
    "process_orgs by_org target max_size orgs p1 = Some p2"
    "map org_id (invoices p2) = map org_id (invoices p1) @ os" "subseq (remdups_adj os) orgs"
    "map fst (leftover p2) = map fst (leftover p1) @ ks" "subseq ks orgs"
    using Cons.IH[OF d(1) disj] by (elim exE conjE) (rule that)
  have 0: "process_orgs by_org target max_size (org # orgs) plan = Some p2"
    using p1(1) p2(1) by simp
  have 1: "map org_id (invoices p2) = map org_id (invoices plan) @ (replicate m org @ os)"
    using p1(2) p2(2) by simp
  have "set (remdups_adj os) \<subseteq> set orgs" using p2(3) by (rule subseq_set)
  then have nos: "org \<notin> set os" using d(2) by auto
  have 2: "subseq (remdups_adj (replicate m org @ os)) (org # orgs)"
  proof (cases m)
    case 0
    then show ?thesis using subseq_drop_many[OF p2(3), of "[org]"] by simp
  next
    case (Suc m')
    then show ?thesis using remdups_adj_replicate_fresh[OF nos, of m'] p2(3) by simp
  qed
  have 3: "map fst (leftover p2) = map fst (leftover plan) @ (k1 @ ks)"
    using p1(3) p2(4) by simp
  have 4: "subseq (k1 @ ks) (org # orgs)"
    using p1(4) p2(5) by auto
  show ?case
    by (intro exI[of _ p2] exI[of _ "replicate m org @ os"] exI[of _ "k1 @ ks"] conjI)
       (rule 0 1 2 3 4)+
qed

lemma optimize_shape:
  assumes "optimize orders target max_size = Some plan"
  shows "subseq (map fst (leftover plan)) (processing_order orders) \<and>
         subseq (remdups_adj (map org_id (invoices plan))) (processing_order orders)"
proof -
  let ?by = "group_by_org (filter canHk orders)"
  let ?p0 = "\<lparr>invoices = [], leftover = []\<rparr>"
  have d: "distinct (org_order ?by)"
    by (simp add: org_order_distinct group_by_org_distinct)
  have e: "fst ` set (leftover ?p0) \<inter> set (org_order ?by) = {}" by simp
  obtain plan' os ks where r:
    "process_orgs ?by target max_size (org_order ?by) ?p0 = Some plan'"
    "map org_id (invoices plan') = map org_id (invoices ?p0) @ os"
    "subseq (remdups_adj os) (org_order ?by)"
    "map fst (leftover plan') = map fst (leftover ?p0) @ ks" "subseq ks (org_order ?by)"
    using process_orgs_shape[OF d e, of ?by target max_size] by (elim exE conjE) (rule that)
  have "plan' = plan" using assms r(1) by (simp add: optimize_def Let_def)
  then show ?thesis using r(2-5) by (simp add: processing_order_def)
qed

text \<open>
  C4, as the code has it. The planner takes the owner groups in descending order of the
  total of their eligible amounts. Owner groups of equal total are taken in the order in
  which their first eligible record stands in the input (the sort is stable and has no
  second key); the owner identifier plays no part. The plan shows the order: the keys of
  its leftover lists, and the owners of its invoices (an owner's invoices stand together),
  follow the processing order.
\<close>

theorem owner_processing_order:
  "sorted_wrt (\<lambda>a b. group_total orders b \<le> group_total orders a) (processing_order orders) \<and>
   filter (\<lambda>k. group_total orders k = t) (processing_order orders) =
     filter (\<lambda>k. group_total orders k = t) (first_seen (map orgId (filter canHk orders))) \<and>
   optimize orders target max_size =
     process_orgs (group_by_org (filter canHk orders)) target max_size (processing_order orders)
       \<lparr>invoices = [], leftover = []\<rparr> \<and>
   (optimize orders target max_size = Some plan \<longrightarrow>
      subseq (map fst (leftover plan)) (processing_order orders) \<and>
      subseq (remdups_adj (map org_id (invoices plan))) (processing_order orders))"
proof (intro conjI impI)
  let ?by = "group_by_org (filter canHk orders)"
  let ?f = "\<lambda>k. - group_total orders k"
  have po: "processing_order orders = sort_key ?f (map fst ?by)"
    by (simp add: processing_order_def org_order_def org_order_key)
  have "sorted (map ?f (sort_key ?f (map fst ?by)))" by (rule sorted_sort_key)
  then show "sorted_wrt (\<lambda>a b. group_total orders b \<le> group_total orders a) (processing_order orders)"
    by (simp add: po sorted_map)
  have "filter (\<lambda>k. ?f k = - t) (sort_key ?f (map fst ?by)) = filter (\<lambda>k. ?f k = - t) (map fst ?by)"
    by (rule sort_key_stable)
  then show "filter (\<lambda>k. group_total orders k = t) (processing_order orders) =
     filter (\<lambda>k. group_total orders k = t) (first_seen (map orgId (filter canHk orders)))"
    by (simp add: po group_by_org_first_seen)
  show "optimize orders target max_size =
     process_orgs ?by target max_size (processing_order orders) \<lparr>invoices = [], leftover = []\<rparr>"
    by (simp add: optimize_def processing_order_def Let_def)
next
  assume "optimize orders target max_size = Some plan"
  from optimize_shape[OF this]
  show "subseq (map fst (leftover plan)) (processing_order orders)"
    and "subseq (remdups_adj (map org_id (invoices plan))) (processing_order orders)"
    by simp_all
qed

lemma tie_run: "optimize tie_orders 100 10 = Some tie_plan"
  by (simp add: tie_orders_def tie_plan_def planner_eval)

theorem owner_processing_order_witness:
  "optimize tie_orders 100 10 = Some tie_plan \<and>
   subseq (map fst (leftover tie_plan)) (processing_order tie_orders) \<and>
   subseq (remdups_adj (map org_id (invoices tie_plan))) (processing_order tie_orders)"
proof -
  note t = owner_processing_order[of tie_orders 0 100 10 tie_plan]
  note u = t[THEN conjunct2, THEN conjunct2, THEN conjunct2, THEN mp, OF tie_run]
  show ?thesis by (intro conjI) (rule tie_run u[THEN conjunct1] u[THEN conjunct2])+
qed

text \<open>Two owners of equal total: owner 2, whose record stands first, is taken before
  owner 1, and the plan lists them in this order.\<close>

theorem tie_order_counterexample:
  "processing_order tie_orders = [2, 1] \<and>
   group_total tie_orders 2 = group_total tie_orders 1 \<and>
   optimize tie_orders 100 10 =
     Some \<lparr>invoices = [],
           leftover = [(2, [\<lparr>orgId = 2, orderId = ''p'', ivcAmount = 50, canHk = True\<rparr>]),
                       (1, [\<lparr>orgId = 1, orderId = ''q'', ivcAmount = 50, canHk = True\<rparr>])]\<rparr>"
  by (simp add: tie_orders_def processing_order_def group_total_def eligible_def planner_eval)

subsection \<open>The search of the code and the search of the specification\<close>

lemma combinations_map: "combinations (map f xs) r = map (map f) (combinations xs r)"
  by (induction xs r rule: combinations.induct) (simp_all add: comp_def)

lemma index_combos:
  "map (map (\<lambda>j. xs ! j)) (combinations [0..<length xs] k) = combinations xs k"
proof -
  have "combinations xs k = combinations (map (\<lambda>j. xs ! j) [0..<length xs]) k"
    by (simp add: map_nth)
  then show ?thesis by (simp only: combinations_map)
qed

lemma sorted_desc_sort:
  fixes xs :: "real list"
  assumes "sorted (rev xs)"
  shows "sort xs = rev xs"
  by (rule properties_for_sort) (simp_all add: assms)

lemma k_largest_take: "sorted (rev xs) \<Longrightarrow> k_largest k xs = take k xs"
  by (simp add: k_largest_def sorted_desc_sort)

lemma k_smallest_drop: "sorted (rev xs) \<Longrightarrow> k_smallest k xs = drop (length xs - k) xs"
  by (simp add: k_smallest_def sorted_desc_sort)

lemma Min_below:
  fixes s :: real
  assumes "filter (\<lambda>x. x < s) B \<noteq> []"
  shows "Min (set (filter (\<lambda>x. x < s) B)) = Min (insert s (set B))"
proof -
  let ?L = "set (filter (\<lambda>x. x < s) B)"
  have ne: "?L \<noteq> {}" using assms by (metis set_empty)
  have in1: "Min ?L \<in> ?L" using ne by (intro Min_in) simp_all
  then have lt: "Min ?L < s" and mem: "Min ?L \<in> set B" by auto
  have "\<forall>y \<in> insert s (set B). Min ?L \<le> y"
  proof
    fix y assume y: "y \<in> insert s (set B)"
    show "Min ?L \<le> y"
    proof (cases "y < s")
      case True
      then have "y \<in> ?L" using y by auto
      then show ?thesis by (intro Min_le) simp_all
    next
      case False
      then show ?thesis using lt by linarith
    qed
  qed
  then show ?thesis using mem by (intro Min_eqI[symmetric]) auto
qed

lemma Min_not_below:
  fixes s :: real
  assumes "filter (\<lambda>x. x < s) B = []"
  shows "Min (insert s (set B)) = s"
proof -
  have "\<forall>y \<in> set B. s \<le> y" using assms by (auto simp: filter_empty_conv not_less)
  then show ?thesis by (intro Min_eqI) auto
qed

lemma filter_below_map:
  "filter (\<lambda>x. x < s) (map f R) = map f (filter (\<lambda>c. f c < s) R)"
  by (induction R) auto

text \<open>The first combination of smallest total, when a combination is put in front.\<close>

lemma first_smallest_keep:
  assumes "filter (\<lambda>x. combo_total fsum x < combo_total fsum c) R = []"
  shows "first_smallest fsum (c # R) = c"
proof -
  let ?f = "combo_total fsum"
  have "filter (\<lambda>x. x < ?f c) (map ?f R) = []"
    using assms by (simp only: filter_below_map) simp
  then have "Min (insert (?f c) (set (map ?f R))) = ?f c" by (rule Min_not_below)
  then have "Min (set (map ?f (c # R))) = ?f c" by simp
  then show ?thesis unfolding first_smallest_def by simp
qed

lemma first_smallest_replace:
  assumes "filter (\<lambda>x. combo_total fsum x < combo_total fsum c) R \<noteq> []"
  shows "first_smallest fsum (c # R) =
           first_smallest fsum (filter (\<lambda>x. combo_total fsum x < combo_total fsum c) R)"
proof -
  let ?f = "combo_total fsum"
  let ?R' = "filter (\<lambda>x. ?f x < ?f c) R"
  let ?m = "Min (set (map ?f ?R'))"
  have mf: "map ?f ?R' = filter (\<lambda>x. x < ?f c) (map ?f R)"
    by (simp only: filter_below_map)
  have ne: "filter (\<lambda>x. x < ?f c) (map ?f R) \<noteq> []"
    using assms by (simp only: filter_below_map) simp
  have m1: "?m = Min (insert (?f c) (set (map ?f R)))"
    unfolding mf by (rule Min_below[OF ne])
  have "set (map ?f ?R') \<noteq> {}" using assms by (metis set_empty map_is_Nil_conv)
  then have "?m \<in> set (map ?f ?R')" by (intro Min_in) simp_all
  then have lt: "?m < ?f c" by auto
  have a: "filter (\<lambda>x. ?f x = ?m) (c # R) = filter (\<lambda>x. ?f x = ?m) R"
    using lt by simp
  have b: "filter (\<lambda>x. ?f x = ?m) ?R' = filter (\<lambda>x. ?f x = ?m) R"
    using lt by (auto intro!: filter_cong)
  have "first_smallest fsum (c # R) = hd (filter (\<lambda>x. ?f x = ?m) (c # R))"
    unfolding first_smallest_def using m1 by simp
  also have "\<dots> = hd (filter (\<lambda>x. ?f x = ?m) ?R')" by (simp only: a b)
  also have "\<dots> = first_smallest fsum ?R'" unfolding first_smallest_def by simp
  finally show ?thesis .
qed

text \<open>The inner loop keeps the first combination of smallest total among those that
  reach the target and are below the best sum it started with.\<close>

lemma fold_try_combo_with:
  assumes "fold (try_combo_with fsum awi target) cs (b, bs, f) = (b', bs', f')"
    and "\<forall>c \<in> set cs. set c \<subseteq> {0..<length awi}"
  shows "(filter (\<lambda>c. target \<le> combo_total fsum c \<and> lt_best (combo_total fsum c) bs)
            (map (map (\<lambda>j. awi ! j)) cs) = [] \<longrightarrow> b' = b \<and> bs' = bs \<and> f' = f) \<and>
         (filter (\<lambda>c. target \<le> combo_total fsum c \<and> lt_best (combo_total fsum c) bs)
            (map (map (\<lambda>j. awi ! j)) cs) \<noteq> [] \<longrightarrow>
            b' = Some (first_smallest fsum
                   (filter (\<lambda>c. target \<le> combo_total fsum c \<and> lt_best (combo_total fsum c) bs)
                      (map (map (\<lambda>j. awi ! j)) cs))) \<and>
            bs' = Some (combo_total fsum (first_smallest fsum
                   (filter (\<lambda>c. target \<le> combo_total fsum c \<and> lt_best (combo_total fsum c) bs)
                      (map (map (\<lambda>j. awi ! j)) cs)))) \<and>
            f')"
  using assms
proof (induction cs arbitrary: b bs f)
  case Nil
  then show ?case by simp
next
  case (Cons c cs)
  let ?tot = "combo_total fsum"
  let ?c = "map (\<lambda>j. awi ! j) c"
  let ?s = "?tot ?c"
  let ?R = "filter (\<lambda>x. target \<le> ?tot x \<and> lt_best (?tot x) bs) (map (map (\<lambda>j. awi ! j)) cs)"
  have rng: "set c \<subseteq> {0..<length awi}" and rest: "\<forall>c \<in> set cs. set c \<subseteq> {0..<length awi}"
    using Cons.prems(2) by simp_all
  have s: "fsum (map (\<lambda>j. map snd awi ! j) c) = ?s"
    unfolding combo_total_def by (simp only: sum_nth_map_snd[OF rng])
  show ?case
  proof (cases "target \<le> ?s \<and> lt_best ?s bs")
    case True
    have st: "try_combo_with fsum awi target c (b, bs, f) = (Some ?c, Some ?s, True)"
      using True by (simp add: try_combo_with_def Let_def s)
    then have fo: "fold (try_combo_with fsum awi target) cs (Some ?c, Some ?s, True) = (b', bs', f')"
      using Cons.prems(1) by simp
    note ih = Cons.IH[OF fo rest]
    have eq: "filter (\<lambda>x. target \<le> ?tot x \<and> lt_best (?tot x) (Some ?s)) (map (map (\<lambda>j. awi ! j)) cs) =
              filter (\<lambda>x. ?tot x < ?s) ?R"
    proof -
      have "lt_best x bs" if "x < ?s" for x
        using True that by (cases bs) (auto simp: lt_best_def)
      then show ?thesis by (auto simp: lt_best_def intro!: filter_cong)
    qed
    have better: "filter (\<lambda>x. target \<le> ?tot x \<and> lt_best (?tot x) bs) (map (map (\<lambda>j. awi ! j)) (c # cs)) =
                  ?c # ?R"
      using True by simp
    show ?thesis
    proof (cases "filter (\<lambda>x. ?tot x < ?s) ?R = []")
      case e: True
      have "b' = Some ?c" "bs' = Some ?s" "f'"
        using ih e unfolding eq by simp_all
      then show ?thesis unfolding better using first_smallest_keep[OF e] by simp
    next
      case ne: False
      have "b' = Some (first_smallest fsum (filter (\<lambda>x. ?tot x < ?s) ?R))"
        "bs' = Some (?tot (first_smallest fsum (filter (\<lambda>x. ?tot x < ?s) ?R)))" "f'"
        using ih ne unfolding eq by simp_all
      then show ?thesis unfolding better using first_smallest_replace[OF ne] by simp
    qed
  next
    case False
    have st: "try_combo_with fsum awi target c (b, bs, f) = (b, bs, f)"
      using False by (auto simp: try_combo_with_def Let_def s)
    then have fo: "fold (try_combo_with fsum awi target) cs (b, bs, f) = (b', bs', f')"
      using Cons.prems(1) by simp
    note ih = Cons.IH[OF fo rest]
    have better: "filter (\<lambda>x. target \<le> ?tot x \<and> lt_best (?tot x) bs) (map (map (\<lambda>j. awi ! j)) (c # cs)) = ?R"
      using False by auto
    show ?thesis unfolding better using ih by simp
  qed
qed

lemma better_combos:
  "filter (\<lambda>c. target \<le> combo_total fsum c \<and> lt_best (combo_total fsum c) (map_option (combo_total fsum) b))
     (map (map (\<lambda>j. awi ! j)) (combinations [0..<length awi] k)) =
   filter (\<lambda>c. case b of None \<Rightarrow> True | Some b0 \<Rightarrow> combo_total fsum c < combo_total fsum b0)
     (reaching fsum awi target k)"
  unfolding index_combos reaching_def
  by (cases b) (auto simp: lt_best_def conj_commute intro!: filter_cong)

lemma skip_small_iff:
  assumes "sorted (rev (map snd awi))"
  shows "(\<not> lt_best (fsum (drop (length awi - k) (map snd awi))) (map_option (combo_total fsum) b)) =
         (case b of None \<Rightarrow> False
          | Some b0 \<Rightarrow> combo_total fsum b0 \<le> fsum (k_smallest k (map snd awi)))"
  using k_smallest_drop[OF assms, of k] by (cases b) (auto simp: lt_best_def)

text \<open>The loop over the sizes of the code is the walk over the sizes of the
  specification, on a pool in descending order.\<close>

lemma size_loop_with_refines:
  assumes "sorted (rev (map snd awi))"
  shows "size_loop_with fsum tight awi target sizes (b, map_option (combo_total fsum) b) =
           (spec_sizes fsum tight awi target sizes b,
            map_option (combo_total fsum) (spec_sizes fsum tight awi target sizes b))"
proof (induction sizes arbitrary: b)
  case Nil
  then show ?case by simp
next
  case (Cons k ks)
  let ?tot = "combo_total fsum"
  let ?xs = "map snd awi"
  let ?n = "length awi"
  let ?bs = "map_option ?tot b"
  note large = k_largest_take[OF assms, of k]
  note small = skip_small_iff[OF assms, of fsum k b]
  show ?case
  proof (cases "fsum (take k ?xs) < target")
    case True
    then show ?thesis using Cons.IH[of b] large by simp
  next
    case c1: False
    show ?thesis
    proof (cases "\<not> lt_best (fsum (drop (?n - k) ?xs)) ?bs")
      case True
      then have "case b of None \<Rightarrow> False | Some b0 \<Rightarrow> ?tot b0 \<le> fsum (k_smallest k ?xs)"
        using small by simp
      then show ?thesis using True c1 Cons.IH[of b] large by simp
    next
      case c2: False
      then have c2': "\<not> (case b of None \<Rightarrow> False | Some b0 \<Rightarrow> ?tot b0 \<le> fsum (k_smallest k ?xs))"
        using small by simp
      obtain b1 bs1 f1 where
        fo: "fold (try_combo_with fsum awi target) (combinations [0..<?n] k) (b, ?bs, False) = (b1, bs1, f1)"
        by (metis surj_pair)
      have rng: "\<forall>c \<in> set (combinations [0..<?n] k). set c \<subseteq> {0..<?n}"
      proof
        fix c assume "c \<in> set (combinations [0..<?n] k)"
        then have "subseq c [0..<?n]" using combinations_subseq by blast
        then have "set c \<subseteq> set [0..<?n]" by (rule subseq_set)
        then show "set c \<subseteq> {0..<?n}" by simp
      qed
      let ?better = "filter (\<lambda>c. case b of None \<Rightarrow> True | Some b0 \<Rightarrow> ?tot c < ?tot b0)
                       (reaching fsum awi target k)"
      note fd = fold_try_combo_with[OF fo rng, unfolded better_combos]
      have src: "size_loop_with fsum tight awi target (k # ks) (b, ?bs) =
                 (if f1 \<and> best_lt bs1 tight then (b1, bs1)
                  else size_loop_with fsum tight awi target ks (b1, bs1))"
        using c1 c2 fo by (simp add: Let_def)
      have spc: "spec_sizes fsum tight awi target (k # ks) b =
                 (if ?better = [] then spec_sizes fsum tight awi target ks b
                  else if ?tot (first_smallest fsum ?better) < tight
                  then Some (first_smallest fsum ?better)
                  else spec_sizes fsum tight awi target ks (Some (first_smallest fsum ?better)))"
        using c1 c2' large by (simp add: Let_def)
      show ?thesis
      proof (cases "?better = []")
        case True
        then have "b1 = b" "bs1 = ?bs" "f1 = False" using fd by simp_all
        then show ?thesis using src spc True Cons.IH[of b] by simp
      next
        case False
        then have r: "b1 = Some (first_smallest fsum ?better)"
          "bs1 = Some (?tot (first_smallest fsum ?better))" "f1"
          using fd by simp_all
        show ?thesis
          using src spc False r Cons.IH[of "Some (first_smallest fsum ?better)"]
          by (simp add: best_lt_def)
      qed
    qed
  qed
qed

lemma sizes_eq:
  "[2 ..< nat (min (m + 1) (int n + 1))] = [2 ..< Suc (nat (min m (int n)))]"
proof (cases "0 \<le> m")
  case True
  then have "nat (min (m + 1) (int n + 1)) = Suc (nat (min m (int n)))" by (auto simp: min_def)
  then show ?thesis by simp
next
  case False
  then have "nat (min (m + 1) (int n + 1)) = 0" "nat (min m (int n)) = 0" by (simp_all add: min_def)
  then show ?thesis by simp
qed

lemma find_best_combo_with_refines:
  assumes "sorted (rev (map snd awi))"
  shows "find_best_combo_with fsum tight awi target max_size =
           search_spec fsum tight awi target max_size"
proof -
  have "size_loop_with fsum tight awi target
          [2 ..< nat (min (max_size + 1) (int (length awi) + 1))]
          (None, map_option (combo_total fsum) None) =
        (spec_sizes fsum tight awi target [2 ..< nat (min (max_size + 1) (int (length awi) + 1))] None,
         map_option (combo_total fsum)
           (spec_sizes fsum tight awi target [2 ..< nat (min (max_size + 1) (int (length awi) + 1))] None))"
    by (rule size_loop_with_refines[OF assms])
  then show ?thesis
    by (simp add: find_best_combo_with_def search_spec_def sizes_eq)
qed

text \<open>The search of the planner model is the one with exact sums and the exact product.\<close>

lemma try_combo_exact: "try_combo_with sum_list awi target = try_combo awi target"
  by (intro ext) (simp add: try_combo_with_def try_combo_def)

lemma size_loop_exact:
  assumes "target * 1.10 = tight"
  shows "size_loop_with sum_list tight awi target sizes st = size_loop awi target sizes st"
proof (induction sizes arbitrary: st)
  case Nil
  then show ?case by (cases st) simp
next
  case (Cons k ks)
  obtain b bs where st: "st = (b, bs)" by (cases st) auto
  show ?case
    unfolding st using assms by (simp add: Let_def try_combo_exact Cons.IH split: prod.splits)
qed

lemma find_best_combo_exact:
  "find_best_combo awi target max_size =
     find_best_combo_with sum_list (target * 1.10) awi target max_size"
  by (simp only: find_best_combo_def find_best_combo_with_def size_loop_exact[OF refl])

lemmas search_eval = find_best_combo_with_def try_combo_with_def lt_best_def best_lt_def
  upt_rec eval_nat_numeral

lemma boundary_search:
  "find_best_combo_with sum_list (110 + 1 / 2 ^ 46) boundary_pool 100 10 = Some [(0, 60), (1, 50)]"
  by (simp add: boundary_pool_def search_eval)

lemma boundary_search_exact:
  "find_best_combo_with sum_list (1.10 * 100) boundary_pool 100 10 =
     Some [(1, 50), (2, 30), (3, 20)]"
  by (simp add: boundary_pool_def search_eval)

lemma boundary_sorted: "sorted (rev (map snd boundary_pool))"
  by (simp add: boundary_pool_def)

text \<open>
  C3, as the code has it. On a pool whose amounts are in descending order, with the sums
  and the value of \<open>target * 1.10\<close> as the program computes them, the search of the code
  returns the combination that the search of the specification returns: sizes 2 up to the
  smaller of the maximal size and the number of amounts, in increasing order; a size is
  passed over when its \<open>k\<close> largest amounts sum below the target, and when its \<open>k\<close>
  smallest amounts sum to at least the best total found so far; otherwise the combination
  of smallest total among those of this size that reach the target and are strictly below
  the best total becomes the best (the first in the order of enumeration when several
  have this total); the walk stops at the first size that gives a best total strictly
  below the computed value of \<open>target * 1.10\<close>. This value and the sums are parameters
  here, so the statement holds of the floating-point arithmetic of the program; the
  computed value is not always the exact product.
\<close>

theorem search_refines_spec:
  assumes "sorted (rev (map snd amounts_with_idx))"
  shows "find_best_combo_with fsum tight amounts_with_idx target max_size =
           search_spec fsum tight amounts_with_idx target max_size"
  by (rule find_best_combo_with_refines[OF assms])

theorem search_refines_spec_witness:
  "sorted (rev (map snd boundary_pool)) \<and>
   find_best_combo_with sum_list (110 + 1 / 2 ^ 46) boundary_pool 100 10 =
     search_spec sum_list (110 + 1 / 2 ^ 46) boundary_pool 100 10 \<and>
   search_spec sum_list (110 + 1 / 2 ^ 46) boundary_pool 100 10 = Some [(0, 60), (1, 50)]"
proof -
  note t = search_refines_spec[OF boundary_sorted, of sum_list "110 + 1 / 2 ^ 46" 100 10]
  have a: "find_best_combo_with sum_list (110 + 1 / 2 ^ 46) boundary_pool 100 10 =
           search_spec sum_list (110 + 1 / 2 ^ 46) boundary_pool 100 10"
    by (rule t)
  have b: "search_spec sum_list (110 + 1 / 2 ^ 46) boundary_pool 100 10 = Some [(0, 60), (1, 50)]"
    using a boundary_search by simp
  show ?thesis by (intro conjI) (rule boundary_sorted a b)+
qed

text \<open>
  The amounts 60, 50, 30, 20, 15 and the target 100; the amounts are whole numbers, so
  their floating-point sums are the exact sums. The double nearest to 1.10 is
  \<open>double_1_10\<close>; its exact product with 100 lies between the neighbouring doubles 110
  and \<open>110 + 1 / 2 ^ 46\<close> and nearer to the second, which is therefore the value of
  \<open>100.0 * 1.10\<close>. With it the search stops at size 2 with the pair of 60 and 50, whose
  total 110 is the exact product and not strictly below it; the search that stops only
  strictly below the exact product goes on to size 3 and returns 50, 30 and 20.
\<close>

theorem tight_bound_counterexample:
  "find_best_combo_with sum_list (110 + 1 / 2 ^ 46) boundary_pool 100 10 = Some [(0, 60), (1, 50)] \<and>
   sum_list (map snd [(0 :: nat, 60 :: real), (1, 50)]) = 1.10 * 100 \<and>
   search_spec sum_list (1.10 * 100) boundary_pool 100 10 = Some [(1, 50), (2, 30), (3, 20)] \<and>
   110 < 100 * double_1_10 \<and> 100 * double_1_10 < 110 + 1 / 2 ^ 46 \<and>
   (110 + 1 / 2 ^ 46) - 100 * double_1_10 < 100 * double_1_10 - 110"
proof -
  have a: "search_spec sum_list (1.10 * 100) boundary_pool 100 10 = Some [(1, 50), (2, 30), (3, 20)]"
    using find_best_combo_with_refines[OF boundary_sorted, of sum_list "1.10 * 100" 100 10]
      boundary_search_exact by simp
  have b: "sum_list (map snd [(0 :: nat, 60 :: real), (1, 50)]) = 1.10 * 100" by simp
  have c: "110 < 100 * double_1_10" "100 * double_1_10 < 110 + 1 / 2 ^ 46"
    "(110 + 1 / 2 ^ 46) - 100 * double_1_10 < 100 * double_1_10 - 110"
    by (simp_all add: double_1_10_def)
  show ?thesis by (intro conjI) (rule boundary_search a b c)+
qed

section \<open>Properties of the executor\<close>

lemma attempts_loop_facts:
  assumes "attempts_loop w iv as (s0, m0) tr = ((s, m), tr')"
  shows "\<exists>rs. tr' = tr @ map (\<lambda>(a, r). Submit iv a r) (zip as rs) \<and> length rs \<le> length as \<and>
              list_all (\<lambda>r. \<not> result_ok r) (butlast rs) \<and>
              s = (if rs = [] then s0 else result_ok (last rs)) \<and>
              (rs = [] \<longrightarrow> as = []) \<and>
              (\<not> s \<longrightarrow> length rs = length as)"
  using assms
proof (induction as arbitrary: s0 m0 tr)
  case Nil
  then show ?case by (intro exI[of _ "[]"]) simp
next
  case (Cons a as)
  let ?res = "submit w tr iv a"
  let ?tr1 = "tr @ [Submit iv a ?res]"
  show ?case
  proof (cases "result_ok ?res")
    case True
    then have "attempts_loop w iv (a # as) (s0, m0) tr = ((True, case ?res of Returned s m \<Rightarrow> m | Raised e \<Rightarrow> ''Exception: '' @ e), ?tr1)"
      by (cases ?res) (simp_all add: Let_def)
    then have "s = True" "tr' = ?tr1" using Cons.prems by simp_all
    then show ?thesis using True by (intro exI[of _ "[?res]"]) simp
  next
    case False
    obtain m1 where m1: "(case ?res of Returned s m \<Rightarrow> (s, m) | Raised e \<Rightarrow> (False, ''Exception: '' @ e)) = (False, m1)"
      using False by (cases ?res) simp_all
    have "attempts_loop w iv (a # as) (s0, m0) tr = attempts_loop w iv as (False, m1) ?tr1"
      using m1 by (simp add: Let_def)
    then have "attempts_loop w iv as (False, m1) ?tr1 = ((s, m), tr')" using Cons.prems by simp
    from Cons.IH[OF this] obtain rs where rs:
      "tr' = ?tr1 @ map (\<lambda>(a, r). Submit iv a r) (zip as rs)" "length rs \<le> length as"
      "list_all (\<lambda>r. \<not> result_ok r) (butlast rs)"
      "s = (if rs = [] then False else result_ok (last rs))"
      "rs = [] \<longrightarrow> as = []" "\<not> s \<longrightarrow> length rs = length as"
      by blast
    show ?thesis
      using rs False by (intro exI[of _ "?res # rs"]) (auto simp: list_all_iff dest: in_set_butlastD)
  qed
qed

lemma length_upto: "length [1..n] = nat n"
  by simp

text \<open>One invoice: the attempts, the entry, the write.\<close>

lemma process_invoice_facts:
  assumes "process_invoice w retry_limit (progress, tr) invoice = (progress', tr')"
  shows "\<exists>rs entry.
           tr' = tr @ map (\<lambda>(a, r). Submit invoice a r) (zip [1..retry_limit] rs) @ [Save progress'] \<and>
           length rs \<le> nat retry_limit \<and> (rs = [] \<longrightarrow> retry_limit < 1) \<and>
           list_all (\<lambda>r. \<not> result_ok r) (butlast rs) \<and>
           rec_org_id entry = org_id invoice \<and> rec_order_ids entry = order_ids invoice \<and>
           rec_total entry = total invoice \<and>
           (if rs \<noteq> [] \<and> result_ok (last rs)
            then progress' = progress\<lparr>completed := completed progress @ [entry]\<rparr>
            else length rs = nat retry_limit \<and>
                 progress' = progress\<lparr>failed := failed progress @ [entry]\<rparr>)"
proof -
  obtain s m tr1 where al: "attempts_loop w invoice [1..retry_limit] (False, []) tr = ((s, m), tr1)"
    by (metis surj_pair)
  let ?entry = "\<lparr>rec_org_id = org_id invoice, rec_order_ids = order_ids invoice,
                  rec_total = total invoice, rec_time = now w tr1, rec_message = m\<rparr>"
  have p: "progress' = (if s then progress\<lparr>completed := completed progress @ [?entry]\<rparr>
                        else progress\<lparr>failed := failed progress @ [?entry]\<rparr>)"
    and t: "tr' = tr1 @ [Save progress']"
    using assms al by (auto simp: process_invoice_def Let_def)
  obtain rs where rs:
    "tr1 = tr @ map (\<lambda>(a, r). Submit invoice a r) (zip [1..retry_limit] rs)"
    "length rs \<le> length [1..retry_limit]"
    "list_all (\<lambda>r. \<not> result_ok r) (butlast rs)"
    "s = (if rs = [] then False else result_ok (last rs))"
    "rs = [] \<longrightarrow> [1..retry_limit] = []" "\<not> s \<longrightarrow> length rs = length [1..retry_limit]"
    using attempts_loop_facts[OF al] by blast
  have e: "rs = [] \<longrightarrow> retry_limit < 1"
    using rs(5) by simp
  show ?thesis
    using p t rs e
    by (intro exI[of _ rs] exI[of _ ?entry]) (auto simp: length_upto)
qed


lemma count_success:
  assumes "list_all (\<lambda>r. \<not> result_ok r) (butlast rs)"
  shows "length (filter result_ok rs) = (if rs \<noteq> [] \<and> result_ok (last rs) then 1 else 0)"
proof (cases rs rule: rev_cases)
  case Nil
  then show ?thesis by simp
next
  case (snoc ys y)
  then have "filter result_ok ys = []" using assms by (simp add: list_all_iff filter_empty_conv)
  then show ?thesis using snoc by simp
qed

lemma submits_success:
  "filter is_success (map (\<lambda>(a, r). Submit iv a r) (zip as rs)) =
     map (\<lambda>(a, r). Submit iv a r) (filter (\<lambda>(a, r). result_ok r) (zip as rs))"
  by (induction as rs rule: list_induct2') auto

lemma zip_filter_snd_length:
  "length rs \<le> length as \<Longrightarrow> length (filter (\<lambda>(a, r). P r) (zip as rs)) = length (filter P rs)"
proof (induction as rs rule: list_induct2')
  case (4 a as r rs)
  then show ?case by simp
qed simp_all

text \<open>What one invoice adds to the ledger and to the trace.\<close>

lemma process_invoice_step:
  assumes "process_invoice w retry_limit (progress, tr) invoice = (progress', tr')"
  shows "\<exists>cs fs new.
           completed progress' = completed progress @ cs \<and>
           failed progress' = failed progress @ fs \<and>
           skipped progress' = skipped progress \<and>
           tr' = tr @ new \<and> new \<noteq> [] \<and> last new = Save progress' \<and>
           length cs = length (filter is_success new) \<and>
           length cs + length fs = 1 \<and>
           map rec_order_ids (cs @ fs) = [order_ids invoice] \<and>
           (\<forall>iv a r. Submit iv a r \<in> set new \<longrightarrow> iv = invoice) \<and>
           Connect \<notin> set new \<and>
           length (filter is_save new) = 1 \<and>
           (1 \<le> retry_limit \<longrightarrow> (\<exists>a r. Submit invoice a r \<in> set new))"
proof -
  obtain rs entry where f:
    "tr' = tr @ map (\<lambda>(a, r). Submit invoice a r) (zip [1..retry_limit] rs) @ [Save progress']"
    "length rs \<le> nat retry_limit" "rs = [] \<longrightarrow> retry_limit < 1"
    "list_all (\<lambda>r. \<not> result_ok r) (butlast rs)"
    "rec_order_ids entry = order_ids invoice"
    "if rs \<noteq> [] \<and> result_ok (last rs)
     then progress' = progress\<lparr>completed := completed progress @ [entry]\<rparr>
     else length rs = nat retry_limit \<and> progress' = progress\<lparr>failed := failed progress @ [entry]\<rparr>"
    using process_invoice_facts[OF assms] by blast
  let ?subs = "map (\<lambda>(a, r). Submit invoice a r) (zip [1..retry_limit] rs)"
  let ?new = "?subs @ [Save progress']"
  let ?ok = "rs \<noteq> [] \<and> result_ok (last rs)"
  let ?cs = "if ?ok then [entry] else []"
  let ?fs = "if ?ok then [] else [entry]"
  have len: "length rs \<le> length [1..retry_limit]" using f(2) by simp
  have succ: "length (filter is_success ?new) = (if ?ok then 1 else 0)"
    using count_success[OF f(4)] zip_filter_snd_length[OF len, of result_ok]
    by (simp add: submits_success)
  have sav: "filter is_save ?subs = []" by (auto simp: filter_empty_conv)
  have sub_in: "\<forall>iv a r. Submit iv a r \<in> set ?new \<longrightarrow> iv = invoice" by auto
  have noc: "Connect \<notin> set ?new" by auto
  have ex: "1 \<le> retry_limit \<longrightarrow> (\<exists>a r. Submit invoice a r \<in> set ?new)"
  proof
    assume "1 \<le> retry_limit"
    then have "rs \<noteq> []" using f(3) by auto
    then obtain r rs' where "rs = r # rs'" by (cases rs) auto
    moreover obtain a as' where "[1..retry_limit] = a # as'"
      using \<open>1 \<le> retry_limit\<close> by (cases "[1..retry_limit]") auto
    ultimately have "Submit invoice a r \<in> set ?subs" by simp
    then show "\<exists>a r. Submit invoice a r \<in> set ?new" by auto
  qed
  show ?thesis
    using f(1,5,6) succ sav sub_in noc ex
    by (intro exI[of _ ?cs] exI[of _ ?fs] exI[of _ ?new]) (simp split: if_splits)
qed

text \<open>The loop over the remaining invoices.\<close>

lemma run_facts:
  assumes "foldl (process_invoice w retry_limit) (progress, tr) ivs = (progress', tr')"
  shows "\<exists>cs fs new.
           completed progress' = completed progress @ cs \<and>
           failed progress' = failed progress @ fs \<and>
           skipped progress' = skipped progress \<and>
           tr' = tr @ new \<and>
           (ivs \<noteq> [] \<longrightarrow> new \<noteq> [] \<and> last new = Save progress') \<and>
           length cs = length (filter is_success new) \<and>
           subseq (map rec_order_ids cs) (map order_ids ivs) \<and>
           mset (map rec_order_ids (cs @ fs)) = mset (map order_ids ivs) \<and>
           (\<forall>iv a r. Submit iv a r \<in> set new \<longrightarrow> iv \<in> set ivs) \<and>
           Connect \<notin> set new \<and>
           length (filter is_save new) = length ivs \<and>
           (1 \<le> retry_limit \<longrightarrow> (\<forall>iv \<in> set ivs. \<exists>a r. Submit iv a r \<in> set new))"
  using assms
proof (induction ivs arbitrary: progress tr)
  case Nil
  then show ?case by (intro exI[of _ "[]"]) simp
next
  case (Cons iv ivs)
  obtain p1 t1 where st: "process_invoice w retry_limit (progress, tr) iv = (p1, t1)"
    by (metis surj_pair)
  obtain c1 f1 n1 where a:
    "completed p1 = completed progress @ c1" "failed p1 = failed progress @ f1"
    "skipped p1 = skipped progress" "t1 = tr @ n1" "n1 \<noteq> []" "last n1 = Save p1"
    "length c1 = length (filter is_success n1)" "length c1 + length f1 = 1"
    "map rec_order_ids (c1 @ f1) = [order_ids iv]"
    "\<forall>i a r. Submit i a r \<in> set n1 \<longrightarrow> i = iv" "Connect \<notin> set n1"
    "length (filter is_save n1) = 1"
    "1 \<le> retry_limit \<longrightarrow> (\<exists>a r. Submit iv a r \<in> set n1)"
    using process_invoice_step[OF st] by (elim exE conjE) (rule that)
  have "foldl (process_invoice w retry_limit) (p1, t1) ivs = (progress', tr')"
    using Cons.prems st by simp
  from Cons.IH[OF this] obtain c2 f2 n2 where b:
    "completed progress' = completed p1 @ c2" "failed progress' = failed p1 @ f2"
    "skipped progress' = skipped p1" "tr' = t1 @ n2"
    "ivs \<noteq> [] \<longrightarrow> n2 \<noteq> [] \<and> last n2 = Save progress'"
    "length c2 = length (filter is_success n2)"
    "subseq (map rec_order_ids c2) (map order_ids ivs)"
    "mset (map rec_order_ids (c2 @ f2)) = mset (map order_ids ivs)"
    "\<forall>i a r. Submit i a r \<in> set n2 \<longrightarrow> i \<in> set ivs" "Connect \<notin> set n2"
    "length (filter is_save n2) = length ivs"
    "1 \<le> retry_limit \<longrightarrow> (\<forall>i \<in> set ivs. \<exists>a r. Submit i a r \<in> set n2)"
    by (elim exE conjE) (rule that)
  have nil: "ivs = [] \<Longrightarrow> progress' = p1 \<and> n2 = []"
    using \<open>foldl (process_invoice w retry_limit) (p1, t1) ivs = (progress', tr')\<close> b(4) by simp
  have 1: "completed progress' = completed progress @ (c1 @ c2)" using a(1) b(1) by simp
  have 2: "failed progress' = failed progress @ (f1 @ f2)" using a(2) b(2) by simp
  have 3: "skipped progress' = skipped progress" using a(3) b(3) by simp
  have 4: "tr' = tr @ (n1 @ n2)" using a(4) b(4) by simp
  have 5: "iv # ivs \<noteq> [] \<longrightarrow> n1 @ n2 \<noteq> [] \<and> last (n1 @ n2) = Save progress'"
    using a(5,6) b(5) nil by (cases "ivs = []") auto
  have 6: "length (c1 @ c2) = length (filter is_success (n1 @ n2))" using a(7) b(6) by simp
  have c1f1: "(c1 = [] \<and> map rec_order_ids f1 = [order_ids iv]) \<or>
              (f1 = [] \<and> map rec_order_ids c1 = [order_ids iv])"
    using a(8,9) by (cases c1; cases f1) auto
  have 7: "subseq (map rec_order_ids (c1 @ c2)) (map order_ids (iv # ivs))"
    using c1f1 b(7) by auto
  have 8: "mset (map rec_order_ids ((c1 @ c2) @ (f1 @ f2))) = mset (map order_ids (iv # ivs))"
  proof -
    have "mset (map rec_order_ids ((c1 @ c2) @ (f1 @ f2))) =
          mset (map rec_order_ids (c1 @ f1)) + mset (map rec_order_ids (c2 @ f2))"
      by simp
    then show ?thesis by (simp only: a(9) b(8)) simp
  qed
  have 9: "\<forall>i a r. Submit i a r \<in> set (n1 @ n2) \<longrightarrow> i \<in> set (iv # ivs)"
  proof (intro allI impI)
    fix i a r
    assume "Submit i a r \<in> set (n1 @ n2)"
    then consider (l) "Submit i a r \<in> set n1" | (r) "Submit i a r \<in> set n2" by auto
    then show "i \<in> set (iv # ivs)"
    proof cases
      case l
      then have "i = iv" using a(10) by blast
      then show ?thesis by simp
    next
      case r
      then have "i \<in> set ivs" using b(9) by blast
      then show ?thesis by simp
    qed
  qed
  have 10: "Connect \<notin> set (n1 @ n2)" using a(11) b(10) by simp
  have 11: "length (filter is_save (n1 @ n2)) = length (iv # ivs)" using a(12) b(11) by simp
  have 12: "1 \<le> retry_limit \<longrightarrow> (\<forall>i \<in> set (iv # ivs). \<exists>a r. Submit i a r \<in> set (n1 @ n2))"
  proof (intro impI ballI)
    fix i
    assume rl: "1 \<le> retry_limit" and "i \<in> set (iv # ivs)"
    then consider (h) "i = iv" | (t) "i \<in> set ivs" by auto
    then show "\<exists>a r. Submit i a r \<in> set (n1 @ n2)"
    proof cases
      case h
      then obtain a r where "Submit i a r \<in> set n1" using a(13) rl by blast
      then have "Submit i a r \<in> set (n1 @ n2)" by simp
      then show ?thesis by blast
    next
      case t
      then obtain a r where "Submit i a r \<in> set n2" using b(12) rl by blast
      then have "Submit i a r \<in> set (n1 @ n2)" by simp
      then show ?thesis by blast
    qed
  qed
  show ?case
    by (intro exI[of _ "c1 @ c2"] exI[of _ "f1 @ f2"] exI[of _ "n1 @ n2"] conjI)
       (rule 1 2 3 4 5 6 7 8 9 10 11 12)+
qed


text \<open>A whole run.\<close>

lemma batch_merge_facts:
  assumes "batch_merge w retry_limit plan file = Inr (progress', tr)"
  defines "progress \<equiv> load_progress file"
  defines "remaining \<equiv> remaining_invoices plan (load_progress file)"
  shows "\<exists>cs fs.
           completed progress' = completed progress @ cs \<and>
           failed progress' = failed progress @ fs \<and>
           skipped progress' = skipped progress \<and>
           (tr \<noteq> [] \<longrightarrow> last tr = Save progress') \<and>
           length cs = length (filter is_success tr) \<and>
           subseq (map rec_order_ids cs) (map order_ids remaining) \<and>
           mset (map rec_order_ids (cs @ fs)) = mset (map order_ids remaining) \<and>
           (\<forall>iv a r. Submit iv a r \<in> set tr \<longrightarrow> iv \<in> set remaining) \<and>
           length (filter is_save tr) = length remaining \<and>
           (1 \<le> retry_limit \<longrightarrow> (\<forall>iv \<in> set remaining. \<exists>a r. Submit iv a r \<in> set tr))"
proof (cases "remaining = []")
  case True
  then have "progress' = progress" "tr = []"
    using assms(1) by (simp_all add: batch_merge_def Let_def progress_def remaining_def)
  then show ?thesis using True by (intro exI[of _ "[]"]) simp
next
  case False
  then have "foldl (process_invoice w retry_limit) (progress, [Connect]) remaining = (progress', tr)"
    using assms(1)
    by (simp add: batch_merge_def Let_def progress_def remaining_def split: if_splits)
  from run_facts[OF this] obtain cs fs new where r:
    "completed progress' = completed progress @ cs" "failed progress' = failed progress @ fs"
    "skipped progress' = skipped progress" "tr = [Connect] @ new"
    "remaining \<noteq> [] \<longrightarrow> new \<noteq> [] \<and> last new = Save progress'"
    "length cs = length (filter is_success new)"
    "subseq (map rec_order_ids cs) (map order_ids remaining)"
    "mset (map rec_order_ids (cs @ fs)) = mset (map order_ids remaining)"
    "\<forall>iv a r. Submit iv a r \<in> set new \<longrightarrow> iv \<in> set remaining" "Connect \<notin> set new"
    "length (filter is_save new) = length remaining"
    "1 \<le> retry_limit \<longrightarrow> (\<forall>iv \<in> set remaining. \<exists>a r. Submit iv a r \<in> set new)"
    by (elim exE conjE) (rule that)
  have 4: "tr \<noteq> [] \<longrightarrow> last tr = Save progress'" using r(4,5) False by simp
  have 5: "length cs = length (filter is_success tr)" using r(4,6) by simp
  have 8: "\<forall>iv a r. Submit iv a r \<in> set tr \<longrightarrow> iv \<in> set remaining" using r(4,9) by simp
  have 9: "length (filter is_save tr) = length remaining" using r(4,11) by simp
  have 10: "1 \<le> retry_limit \<longrightarrow> (\<forall>iv \<in> set remaining. \<exists>a r. Submit iv a r \<in> set tr)"
    using r(4,12) by simp
  show ?thesis
    by (intro exI[of _ cs] exI[of _ fs] conjI) (rule r(1,2,3,7,8) 4 5 8 9 10)+
qed

subsection \<open>The claims about the executor\<close>

lemmas executor_eval = batch_merge_def load_progress_def remaining_invoices_def identity_key_def
  process_invoice_def completed_keys_def plan_keys_def upto.simps Let_def

lemma resumed_run:
  "batch_merge second_try_world 2 ex_plan (Some resume_ledger) = Inr (resumed_ledger, resumed_trace)"
  by (simp add: executor_eval second_try_world_def ex_plan_def ex_invoice1_def ex_invoice2_def
        resume_ledger_def resumed_ledger_def resumed_trace_def)

lemma down_step:
  "process_invoice down_world 2 (empty_ledger, [Connect]) ex_invoice1 = (down_ledger, down_trace)"
  by (simp add: executor_eval down_world_def ex_invoice1_def empty_ledger_def down_ledger_def
        down_trace_def)

lemma down_run:
  "batch_merge down_world 2 one_plan None = Inr (down_ledger, down_trace)"
  by (simp add: executor_eval down_world_def one_plan_def ex_invoice1_def down_ledger_def
        down_trace_def)






lemma run_entries_disjoint:
  assumes "mset (map rec_order_ids (cs @ fs)) = mset (map order_ids (remaining_invoices plan progress))"
  shows "length cs + length fs = length (remaining_invoices plan progress) \<and>
         (distinct (plan_keys plan) \<longrightarrow>
            set (map (\<lambda>r. identity_key (rec_order_ids r)) cs) \<inter>
            set (map (\<lambda>r. identity_key (rec_order_ids r)) fs) = {})"
proof
  let ?rem = "remaining_invoices plan progress"
  have "size (mset (map rec_order_ids (cs @ fs))) = size (mset (map order_ids ?rem))"
    using assms by simp
  then show "length cs + length fs = length ?rem" by simp
  show "distinct (plan_keys plan) \<longrightarrow>
            set (map (\<lambda>r. identity_key (rec_order_ids r)) cs) \<inter>
            set (map (\<lambda>r. identity_key (rec_order_ids r)) fs) = {}"
  proof
    assume d: "distinct (plan_keys plan)"
    have "subseq ?rem (invoices plan)" by (simp add: remaining_invoices_def Let_def)
    then have "subseq (map (\<lambda>iv. identity_key (order_ids iv)) ?rem) (plan_keys plan)"
      unfolding plan_keys_def by (rule subseq_map)
    then have d1: "distinct (map (\<lambda>iv. identity_key (order_ids iv)) ?rem)"
      using d subseq_distinct by blast
    have "image_mset identity_key (mset (map rec_order_ids (cs @ fs))) =
          image_mset identity_key (mset (map order_ids ?rem))"
      using assms by simp
    then have "mset (map (\<lambda>r. identity_key (rec_order_ids r)) (cs @ fs)) =
               mset (map (\<lambda>iv. identity_key (order_ids iv)) ?rem)"
      by (simp add: multiset.map_comp comp_def)
    then have "distinct (map (\<lambda>r. identity_key (rec_order_ids r)) (cs @ fs))"
      using d1 mset_eq_imp_distinct_iff by blast
    then show "set (map (\<lambda>r. identity_key (rec_order_ids r)) cs) \<inter>
               set (map (\<lambda>r. identity_key (rec_order_ids r)) fs) = {}"
      by simp
  qed
qed

text \<open>
  C7, as the code has it. One invoice that is not skipped: its submissions carry the
  attempt numbers 1, 2, ... and stop at the first success; when every one fails there are
  exactly \<open>retry_limit\<close> of them (none when \<open>retry_limit\<close> is not positive) and one entry
  for the invoice is added to the failed list, the completed list staying as it is; when
  the last one succeeds the one entry is added to the completed list and the failed list
  stays as it is. The write of the whole ledger follows at once. A run is this step for
  each remaining invoice in turn: it writes the ledger once per remaining invoice, its
  last event is the write of the ledger it ends with, and it appends one entry per
  remaining invoice, keeping every entry the two lists had before. So an invoice is in
  one list only as far as the entries of one run over a plan of pairwise different
  identity keys go: among these, no key is both in the completed and in the failed list.
  An entry that an earlier run left in the failed list stays there when the invoice
  succeeds later.
\<close>

theorem retry_then_record:
  "(process_invoice w retry_limit (progress, tr) invoice = (progress', tr') \<longrightarrow>
      (\<exists>rs entry.
         tr' = tr @ map (\<lambda>(a, r). Submit invoice a r) (zip [1..retry_limit] rs) @ [Save progress'] \<and>
         length rs \<le> nat retry_limit \<and>
         list_all (\<lambda>r. \<not> result_ok r) (butlast rs) \<and>
         rec_org_id entry = org_id invoice \<and> rec_order_ids entry = order_ids invoice \<and>
         rec_total entry = total invoice \<and>
         (if rs \<noteq> [] \<and> result_ok (last rs)
          then progress' = progress\<lparr>completed := completed progress @ [entry]\<rparr>
          else length rs = nat retry_limit \<and>
               progress' = progress\<lparr>failed := failed progress @ [entry]\<rparr>))) \<and>
   (batch_merge w retry_limit plan file = Inr (ledger, trace) \<longrightarrow>
      (ledger, trace) =
         foldl (process_invoice w retry_limit)
           (load_progress file,
            if remaining_invoices plan (load_progress file) = [] then [] else [Connect])
           (remaining_invoices plan (load_progress file)) \<and>
      length (filter is_save trace) = length (remaining_invoices plan (load_progress file)) \<and>
      (trace \<noteq> [] \<longrightarrow> last trace = Save ledger) \<and>
      (\<exists>cs fs. completed ledger = completed (load_progress file) @ cs \<and>
               failed ledger = failed (load_progress file) @ fs \<and>
               length cs + length fs = length (remaining_invoices plan (load_progress file)) \<and>
               (distinct (plan_keys plan) \<longrightarrow>
                  set (map (\<lambda>r. identity_key (rec_order_ids r)) cs) \<inter>
                  set (map (\<lambda>r. identity_key (rec_order_ids r)) fs) = {})))"
proof (intro conjI impI)
  assume "process_invoice w retry_limit (progress, tr) invoice = (progress', tr')"
  from process_invoice_facts[OF this]
  show "\<exists>rs entry.
         tr' = tr @ map (\<lambda>(a, r). Submit invoice a r) (zip [1..retry_limit] rs) @ [Save progress'] \<and>
         length rs \<le> nat retry_limit \<and>
         list_all (\<lambda>r. \<not> result_ok r) (butlast rs) \<and>
         rec_org_id entry = org_id invoice \<and> rec_order_ids entry = order_ids invoice \<and>
         rec_total entry = total invoice \<and>
         (if rs \<noteq> [] \<and> result_ok (last rs)
          then progress' = progress\<lparr>completed := completed progress @ [entry]\<rparr>
          else length rs = nat retry_limit \<and>
               progress' = progress\<lparr>failed := failed progress @ [entry]\<rparr>)"
    by blast
next
  assume run: "batch_merge w retry_limit plan file = Inr (ledger, trace)"
  then show "(ledger, trace) =
         foldl (process_invoice w retry_limit)
           (load_progress file,
            if remaining_invoices plan (load_progress file) = [] then [] else [Connect])
           (remaining_invoices plan (load_progress file))"
    by (simp add: batch_merge_def Let_def split: if_splits)
  show "length (filter is_save trace) = length (remaining_invoices plan (load_progress file))"
    using batch_merge_facts[OF run] by blast
  show "last trace = Save ledger" if "trace \<noteq> []"
    using batch_merge_facts[OF run] that by blast
  obtain cs fs where f:
    "completed ledger = completed (load_progress file) @ cs"
    "failed ledger = failed (load_progress file) @ fs"
    "mset (map rec_order_ids (cs @ fs)) =
       mset (map order_ids (remaining_invoices plan (load_progress file)))"
    using batch_merge_facts[OF run] by (elim exE conjE) (rule that)
  show "\<exists>cs fs. completed ledger = completed (load_progress file) @ cs \<and>
               failed ledger = failed (load_progress file) @ fs \<and>
               length cs + length fs = length (remaining_invoices plan (load_progress file)) \<and>
               (distinct (plan_keys plan) \<longrightarrow>
                  set (map (\<lambda>r. identity_key (rec_order_ids r)) cs) \<inter>
                  set (map (\<lambda>r. identity_key (rec_order_ids r)) fs) = {})"
    using f(1,2) run_entries_disjoint[OF f(3)] by blast
qed

theorem retry_then_record_witness:
  "process_invoice down_world 2 (empty_ledger, [Connect]) ex_invoice1 = (down_ledger, down_trace) \<and>
   batch_merge down_world 2 one_plan None = Inr (down_ledger, down_trace) \<and>
   distinct (plan_keys one_plan) \<and>
   (\<exists>rs entry.
      down_trace = [Connect] @ map (\<lambda>(a, r). Submit ex_invoice1 a r) (zip [1..2] rs) @ [Save down_ledger] \<and>
      length rs \<le> nat 2 \<and>
      list_all (\<lambda>r. \<not> result_ok r) (butlast rs) \<and>
      rec_org_id entry = org_id ex_invoice1 \<and> rec_order_ids entry = order_ids ex_invoice1 \<and>
      rec_total entry = total ex_invoice1 \<and>
      (if rs \<noteq> [] \<and> result_ok (last rs)
       then down_ledger = empty_ledger\<lparr>completed := completed empty_ledger @ [entry]\<rparr>
       else length rs = nat 2 \<and>
            down_ledger = empty_ledger\<lparr>failed := failed empty_ledger @ [entry]\<rparr>)) \<and>
   length (filter is_save down_trace) = length (remaining_invoices one_plan (load_progress None)) \<and>
   down_trace \<noteq> [] \<and> last down_trace = Save down_ledger \<and>
   (\<exists>cs fs. completed down_ledger = completed (load_progress None) @ cs \<and>
            failed down_ledger = failed (load_progress None) @ fs \<and>
            length cs + length fs = length (remaining_invoices one_plan (load_progress None)) \<and>
            set (map (\<lambda>r. identity_key (rec_order_ids r)) cs) \<inter>
            set (map (\<lambda>r. identity_key (rec_order_ids r)) fs) = {})"
proof -
  note t = retry_then_record[of down_world 2 empty_ledger "[Connect]" ex_invoice1 down_ledger
      down_trace one_plan None down_ledger down_trace]
  note a = t[THEN conjunct1, THEN mp, OF down_step]
  note b = t[THEN conjunct2, THEN mp, OF down_run]
  have d: "distinct (plan_keys one_plan)" by (simp add: plan_keys_def one_plan_def)
  have ne: "down_trace \<noteq> []" by (simp add: down_trace_def)
  have l: "last down_trace = Save down_ledger" using b ne by blast
  have n: "length (filter is_save down_trace) = length (remaining_invoices one_plan (load_progress None))"
    using b by blast
  have e: "\<exists>cs fs. completed down_ledger = completed (load_progress None) @ cs \<and>
            failed down_ledger = failed (load_progress None) @ fs \<and>
            length cs + length fs = length (remaining_invoices one_plan (load_progress None)) \<and>
            set (map (\<lambda>r. identity_key (rec_order_ids r)) cs) \<inter>
            set (map (\<lambda>r. identity_key (rec_order_ids r)) fs) = {}"
    using b d by blast
  show ?thesis by (intro conjI) (rule down_step down_run d a n ne l e)+
qed

text \<open>A first run in which every attempt raises leaves the invoice in the failed list; the
  second run over the same plan starts from that ledger, is accepted at once, and ends
  with the invoice in the completed list and in the failed list.\<close>

theorem failed_then_completed_counterexample:
  "batch_merge down_world 2 one_plan None = Inr (down_ledger, down_trace) \<and>
   batch_merge ok_world 2 one_plan (Some down_ledger) = Inr (both_ledger, both_trace) \<and>
   map rec_order_ids (completed both_ledger) = [[''b'', ''d'']] \<and>
   map rec_order_ids (failed both_ledger) = [[''b'', ''d'']]"
proof -
  have a: "batch_merge ok_world 2 one_plan (Some down_ledger) = Inr (both_ledger, both_trace)"
    by (simp add: executor_eval ok_world_def one_plan_def ex_invoice1_def down_ledger_def
          both_ledger_def both_trace_def)
  have b: "map rec_order_ids (completed both_ledger) = [[''b'', ''d'']]"
    "map rec_order_ids (failed both_ledger) = [[''b'', ''d'']]"
    by (simp_all add: both_ledger_def)
  show ?thesis by (intro conjI) (rule down_run a b)+
qed

text \<open>
  C10. A run leaves the skipped list as the starting ledger has it (empty when there is
  no ledger file). It only appends to the completed and the failed list, and the entries
  it appends are one for each invoice that the identity-key check lets through, under the
  identifiers of that invoice: an invoice that the check holds back gets no entry.
\<close>

theorem skipped_list_unchanged:
  assumes "batch_merge w retry_limit plan file = Inr (progress', tr)"
  shows "skipped progress' = skipped (load_progress file) \<and>
         (\<exists>cs fs. completed progress' = completed (load_progress file) @ cs \<and>
                  failed progress' = failed (load_progress file) @ fs \<and>
                  mset (map rec_order_ids (cs @ fs)) =
                    mset (map order_ids (remaining_invoices plan (load_progress file)))) \<and>
         skipped (load_progress None) = []"
proof -
  obtain cs fs where f:
    "completed progress' = completed (load_progress file) @ cs"
    "failed progress' = failed (load_progress file) @ fs"
    "skipped progress' = skipped (load_progress file)"
    "mset (map rec_order_ids (cs @ fs)) =
       mset (map order_ids (remaining_invoices plan (load_progress file)))"
    using batch_merge_facts[OF assms] by (elim exE conjE) (rule that)
  have "skipped (load_progress None) = []" by (simp add: load_progress_def)
  then show ?thesis using f by blast
qed

theorem skipped_list_unchanged_witness:
  "batch_merge second_try_world 2 ex_plan (Some resume_ledger) = Inr (resumed_ledger, resumed_trace) \<and>
   skipped resumed_ledger = skipped (load_progress (Some resume_ledger)) \<and>
   (\<exists>cs fs. completed resumed_ledger = completed (load_progress (Some resume_ledger)) @ cs \<and>
            failed resumed_ledger = failed (load_progress (Some resume_ledger)) @ fs \<and>
            mset (map rec_order_ids (cs @ fs)) =
              mset (map order_ids (remaining_invoices ex_plan (load_progress (Some resume_ledger))))) \<and>
   skipped (load_progress None) = []"
  by (intro conjI) (rule resumed_run skipped_list_unchanged[OF resumed_run, THEN conjunct1]
      skipped_list_unchanged[OF resumed_run, THEN conjunct2, THEN conjunct1]
      skipped_list_unchanged[OF resumed_run, THEN conjunct2, THEN conjunct2])+

end
